theory Spec2Isabelle
  imports Main "HOL-Library.Multiset"
begin

section \<open>The Sudoku engine of js/ui.js (module SudokuGenerator)\<close>

text \<open>
  A board is the JavaScript \<open>number[][]\<close>: a list of rows, each a list of integers, with 0
  for an empty cell. Row and column indices are naturals. The engine reads and writes
  \<open>board[row][col]\<close> with indices in 0..8 only, so on a 9x9 board every access is in range;
  the theorems below that depend on it carry the hypothesis \<open>wellFormed\<close> (9 rows of 9 cells).
\<close>

type_synonym board = "int list list"

definition wellFormed :: "board \<Rightarrow> bool" where
  "wellFormed b = (length b = 9 \<and> list_all (\<lambda>row. length row = 9) b)"

text \<open>\<open>board[row][col] = v\<close>\<close>

definition setCell :: "board \<Rightarrow> nat \<Rightarrow> nat \<Rightarrow> int \<Rightarrow> board" where
  "setCell b r c v = b[r := (b ! r)[c := v]]"

text \<open>\<open>createEmptyBoard\<close>: \<open>Array(9).fill(null).map(() => Array(9).fill(0))\<close>\<close>

definition createEmptyBoard :: board where
  "createEmptyBoard = replicate 9 (replicate 9 0)"

text \<open>
  \<open>isValid\<close>: three scans with early return, in the order of the source: the row, the
  column, the 3x3 box whose origin is \<open>(floor(row/3)*3, floor(col/3)*3)\<close>.
\<close>

definition isValid :: "board \<Rightarrow> nat \<Rightarrow> nat \<Rightarrow> int \<Rightarrow> bool" where
  "isValid board row col num =
     (if list_ex (\<lambda>x. board ! row ! x = num) [0..<9] then False
      else if list_ex (\<lambda>x. board ! x ! col = num) [0..<9] then False
      else (let startRow = (row div 3) * 3; startCol = (col div 3) * 3 in
            if list_ex (\<lambda>i. list_ex (\<lambda>j. board ! (startRow + i) ! (startCol + j) = num) [0..<3]) [0..<3]
            then False else True))"

text \<open>\<open>toFlatArray\<close>: \<open>board.flat()\<close>, the rows one after the other.\<close>

definition toFlatArray :: "board \<Rightarrow> int list" where
  "toFlatArray board = concat board"

text \<open>
  \<open>fromFlatArray\<close>: nine times \<open>flat.slice(i * 9, (i + 1) * 9)\<close>. A JavaScript slice is
  clamped to the array, as \<open>take\<close> and \<open>drop\<close> are; the function has no check and no throw.
\<close>

definition fromFlatArray :: "int list \<Rightarrow> board" where
  "fromFlatArray flat = map (\<lambda>i. take ((i + 1) * 9 - i * 9) (drop (i * 9) flat)) [0..<9]"

subsection \<open>Backtracking solver\<close>

text \<open>
  The nested scan \<open>for row, for col: if (board[row][col] === 0)\<close> of \<open>solve\<close> and of
  \<open>solveCount\<close> stops at the first empty cell in row-major order.
\<close>

definition findEmpty :: "board \<Rightarrow> (nat \<times> nat) option" where
  "findEmpty board = find (\<lambda>(row, col). board ! row ! col = 0) (List.product [0..<9] [0..<9])"

text \<open>
  \<open>solve\<close> mutates the board in place and returns a boolean: the model returns both. The
  recursion is bounded by a fuel that counts nested calls; \<open>None\<close> is "out of fuel". Each
  nested call has one more filled cell, so 82 levels are enough on a 9x9 board (lemma
  \<open>solve_total\<close>). \<open>tryNums\<close> is the loop \<open>for num = 1..9\<close> at the empty cell; \<open>rec\<close> is the
  recursive call.
\<close>

fun tryNums :: "(board \<Rightarrow> (bool \<times> board) option) \<Rightarrow> board \<Rightarrow> nat \<Rightarrow> nat \<Rightarrow> int list
    \<Rightarrow> (bool \<times> board) option" where
  "tryNums rec board row col [] = Some (False, board)"
| "tryNums rec board row col (num # nums) =
     (if isValid board row col num then
        (case rec (setCell board row col num) of
           None \<Rightarrow> None
         | Some (ok, board') \<Rightarrow>
             if ok then Some (True, board')
             else tryNums rec (setCell board' row col 0) row col nums)
      else tryNums rec board row col nums)"

fun solveFuel :: "nat \<Rightarrow> board \<Rightarrow> (bool \<times> board) option" where
  "solveFuel 0 board = None"
| "solveFuel (Suc n) board =
     (case findEmpty board of
        None \<Rightarrow> Some (True, board)
      | Some (row, col) \<Rightarrow> tryNums (solveFuel n) board row col [1..9])"

definition solve :: "board \<Rightarrow> (bool \<times> board) option" where
  "solve board = solveFuel 82 board"

subsection \<open>Solution counter\<close>

text \<open>
  \<open>countSolutions\<close>: the closure variable \<open>count\<close> (here \<open>cnt\<close>) and the board are the state of
  \<open>solveCount\<close>. After each trial placement the cell is reset to 0, and the loop returns as
  soon as \<open>count > 1\<close>.
\<close>

fun countNums :: "(board \<Rightarrow> nat \<Rightarrow> (board \<times> nat) option) \<Rightarrow> board \<Rightarrow> nat \<Rightarrow> nat \<Rightarrow> nat \<Rightarrow> int list
    \<Rightarrow> (board \<times> nat) option" where
  "countNums rec b cnt row col [] = Some (b, cnt)"
| "countNums rec b cnt row col (num # nums) =
     (if isValid b row col num then
        (case rec (setCell b row col num) cnt of
           None \<Rightarrow> None
         | Some (b', cnt') \<Rightarrow>
             if cnt' > 1 then Some (setCell b' row col 0, cnt')
             else countNums rec (setCell b' row col 0) cnt' row col nums)
      else countNums rec b cnt row col nums)"

fun solveCount :: "nat \<Rightarrow> board \<Rightarrow> nat \<Rightarrow> (board \<times> nat) option" where
  "solveCount 0 b cnt = None"
| "solveCount (Suc n) b cnt =
     (case findEmpty b of
        None \<Rightarrow> Some (b, cnt + 1)
      | Some (row, col) \<Rightarrow> countNums (solveCount n) b cnt row col [1..9])"

text \<open>The result is the board as the call leaves it, and the count returned.\<close>

definition countSolutions :: "board \<Rightarrow> (board \<times> nat) option" where
  "countSolutions board = solveCount 82 board 0"

subsection \<open>Randomness\<close>

text \<open>
  \<open>Math.random()\<close> is modelled by a list of draws supplied from outside, consumed from the
  front. \<open>Math.floor(Math.random() * k)\<close> is an integer of 0..k-1: the next draw reduced
  modulo \<open>k\<close>, so that every draw is legal and every value of 0..k-1 can come out. A run that
  needs more draws than the list has does not return (\<open>None\<close>): this is how the do-while of
  \<open>fillBox\<close>, which may spin forever, is a partial function of the source of randomness.
\<close>

type_synonym rng = "nat list"

definition randomInt :: "nat \<Rightarrow> rng \<Rightarrow> (nat \<times> rng) option" where
  "randomInt k rs = (case rs of [] \<Rightarrow> None | x # rs' \<Rightarrow> Some (x mod k, rs'))"

subsection \<open>Full board generator\<close>

definition isSafeInBox :: "board \<Rightarrow> nat \<Rightarrow> nat \<Rightarrow> int \<Rightarrow> bool" where
  "isSafeInBox board rowStart colStart num =
     (if list_ex (\<lambda>i. list_ex (\<lambda>j. board ! (rowStart + i) ! (colStart + j) = num) [0..<3]) [0..<3]
      then False else True)"

text \<open>\<open>do { num = Math.floor(Math.random() * 9) + 1 } while (!isSafeInBox(board, row, col, num))\<close>\<close>

fun drawSafe :: "board \<Rightarrow> nat \<Rightarrow> nat \<Rightarrow> rng \<Rightarrow> (int \<times> rng) option" where
  "drawSafe board row col [] = None"
| "drawSafe board row col (x # rs) =
     (let num = int (x mod 9) + 1 in
      if isSafeInBox board row col num then Some (num, rs) else drawSafe board row col rs)"

fun fillCells :: "board \<Rightarrow> nat \<Rightarrow> nat \<Rightarrow> (nat \<times> nat) list \<Rightarrow> rng \<Rightarrow> (board \<times> rng) option" where
  "fillCells board row col [] rs = Some (board, rs)"
| "fillCells board row col ((i, j) # cells) rs =
     (case drawSafe board row col rs of
        None \<Rightarrow> None
      | Some (num, rs') \<Rightarrow> fillCells (setCell board (row + i) (col + j) num) row col cells rs')"

definition fillBox :: "board \<Rightarrow> nat \<Rightarrow> nat \<Rightarrow> rng \<Rightarrow> (board \<times> rng) option" where
  "fillBox board row col rs = fillCells board row col (List.product [0..<3] [0..<3]) rs"

text \<open>
  \<open>generateFullBoard\<close>: the three diagonal boxes, then \<open>solve\<close>, whose boolean is ignored;
  the board is returned as \<open>solve\<close> leaves it.
\<close>

definition generateFullBoard :: "rng \<Rightarrow> (board \<times> rng) option" where
  "generateFullBoard rs =
     (case fillBox createEmptyBoard 0 0 rs of None \<Rightarrow> None | Some (b1, rs1) \<Rightarrow>
      case fillBox b1 3 3 rs1 of None \<Rightarrow> None | Some (b2, rs2) \<Rightarrow>
      case fillBox b2 6 6 rs2 of None \<Rightarrow> None | Some (b3, rs3) \<Rightarrow>
      case solve b3 of None \<Rightarrow> None | Some (ok, b4) \<Rightarrow> Some (b4, rs3))"

subsection \<open>Excavator\<close>

text \<open>
  \<open>shuffleArray\<close>: \<open>for (i = length - 1; i > 0; i--) { j = floor(random * (i + 1)); swap }\<close>.
  The swap reads both elements before it writes.
\<close>

fun shuffleFrom :: "nat \<Rightarrow> 'a list \<Rightarrow> rng \<Rightarrow> ('a list \<times> rng) option" where
  "shuffleFrom 0 array rs = Some (array, rs)"
| "shuffleFrom (Suc k) array rs =
     (case randomInt (Suc k + 1) rs of
        None \<Rightarrow> None
      | Some (j, rs') \<Rightarrow> shuffleFrom k (array[Suc k := array ! j, j := array ! Suc k]) rs')"

definition shuffleArray :: "'a list \<Rightarrow> rng \<Rightarrow> ('a list \<times> rng) option" where
  "shuffleArray array rs = shuffleFrom (length array - 1) array rs"

definition clueRange :: "string \<Rightarrow> nat \<times> nat" where
  "clueRange difficulty =
     (if difficulty = ''easy'' then (35, 40)
      else if difficulty = ''medium'' then (30, 34)
      else if difficulty = ''hard'' then (25, 29)
      else (30, 34))"

text \<open>
  The excavation loop over the shuffled positions. It returns the puzzle, \<open>holesPoked\<close> and
  the positions the loop has not visited when it exits: the whole remainder at the
  \<open>break\<close>, nothing when the list is exhausted. \<open>countSolutions\<close> runs on a copy, whose
  final state is dropped.
\<close>

fun pokeLoop :: "board \<Rightarrow> nat \<Rightarrow> nat \<Rightarrow> (nat \<times> nat) list \<Rightarrow> (board \<times> nat \<times> (nat \<times> nat) list) option" where
  "pokeLoop pz holesPoked holesToPoke [] = Some (pz, holesPoked, [])"
| "pokeLoop pz holesPoked holesToPoke ((row, col) # rest) =
     (if holesPoked \<ge> holesToPoke then Some (pz, holesPoked, (row, col) # rest)
      else
        (let backup = pz ! row ! col;
             dug = setCell pz row col 0
         in case countSolutions dug of
              None \<Rightarrow> None
            | Some (copy, solutions) \<Rightarrow>
                if solutions = 1 then pokeLoop dug (holesPoked + 1) holesToPoke rest
                else pokeLoop (setCell dug row col backup) holesPoked holesToPoke rest))"

text \<open>
  \<open>pokeHolesRun\<close> is the body of \<open>pokeHoles\<close> with its local variables at the exit kept:
  the state of the loop, \<open>holesToPoke\<close>, and the rest of the draws.
\<close>

definition pokeHolesRun :: "board \<Rightarrow> string \<Rightarrow> rng
    \<Rightarrow> ((board \<times> nat \<times> (nat \<times> nat) list) \<times> nat \<times> rng) option" where
  "pokeHolesRun board difficulty rs =
     (let (minNumbers, maxNumbers) = clueRange difficulty in
      case randomInt (maxNumbers - minNumbers + 1) rs of None \<Rightarrow> None | Some (k, rs1) \<Rightarrow>
        (let numbersToKeep = k + minNumbers;
             holesToPoke = 81 - numbersToKeep
         in case shuffleArray (List.product [0..<9] [0..<9]) rs1 of None \<Rightarrow> None
            | Some (positions, rs2) \<Rightarrow>
                (case pokeLoop board 0 holesToPoke positions of None \<Rightarrow> None
                 | Some exit \<Rightarrow> Some (exit, holesToPoke, rs2))))"

definition pokeHoles :: "board \<Rightarrow> string \<Rightarrow> rng \<Rightarrow> (board \<times> rng) option" where
  "pokeHoles board difficulty rs =
     map_option (\<lambda>((pz, holesPoked, rest), holesToPoke, rs'). (pz, rs')) (pokeHolesRun board difficulty rs)"

subsection \<open>Entry point\<close>

record generation =
  puzzle :: board
  solution :: board
  difficulty :: string

definition generate :: "string \<Rightarrow> rng \<Rightarrow> (generation \<times> rng) option" where
  "generate tag rs =
     (case generateFullBoard rs of None \<Rightarrow> None | Some (full, rs1) \<Rightarrow>
      case pokeHoles full tag rs1 of None \<Rightarrow> None | Some (pz, rs2) \<Rightarrow>
        Some (\<lparr>puzzle = pz, solution = full, difficulty = tag\<rparr>, rs2))"

subsection \<open>The excavator on a store of arrays\<close>

text \<open>
  Whether \<open>pokeHoles\<close> writes to its argument depends on which arrays are shared, so the
  excavator is modelled a second time over an explicit store. An object of the store is a
  row array (numbers) or an outer array (references to rows); an address is an index of
  the store and allocation appends. \<open>board.map(row => [...row])\<close> allocates nine new rows
  and a new outer array (\<open>copyBoardH\<close>); \<open>puzzle[row][col] = v\<close> updates the row object that
  the outer array refers to (\<open>writeCellH\<close>).
\<close>

datatype obj = Row "int list" | Grid "nat list"

type_synonym heap = "obj list"

definition rowAt :: "heap \<Rightarrow> nat \<Rightarrow> int list" where
  "rowAt h ra = (case h ! ra of Row xs \<Rightarrow> xs | Grid refs \<Rightarrow> [])"

definition refsAt :: "heap \<Rightarrow> nat \<Rightarrow> nat list" where
  "refsAt h a = (case h ! a of Grid refs \<Rightarrow> refs | Row xs \<Rightarrow> [])"

text \<open>The board that the outer array at address \<open>a\<close> denotes.\<close>

definition readBoard :: "heap \<Rightarrow> nat \<Rightarrow> board" where
  "readBoard h a = map (rowAt h) (refsAt h a)"

definition readCellH :: "heap \<Rightarrow> nat \<Rightarrow> nat \<Rightarrow> nat \<Rightarrow> int" where
  "readCellH h a r c = rowAt h (refsAt h a ! r) ! c"

definition writeCellH :: "heap \<Rightarrow> nat \<Rightarrow> nat \<Rightarrow> nat \<Rightarrow> int \<Rightarrow> heap" where
  "writeCellH h a r c v = (let ra = refsAt h a ! r in h[ra := Row ((rowAt h ra)[c := v])])"

text \<open>A new board: its rows, then its outer array; the result is the store and the address.\<close>

definition allocBoard :: "heap \<Rightarrow> board \<Rightarrow> heap \<times> nat" where
  "allocBoard h b =
     (h @ map Row b @ [Grid [length h..<length h + length b]], length h + length b)"

definition copyBoardH :: "heap \<Rightarrow> nat \<Rightarrow> heap \<times> nat" where
  "copyBoardH h a = allocBoard h (readBoard h a)"

text \<open>
  \<open>countSolutions\<close> reads and writes its argument only through \<open>b[row][col]\<close>: on the store
  it takes the rows of the board at \<open>a\<close> to the state in which the call leaves them.
\<close>

definition storeRows :: "heap \<Rightarrow> nat list \<Rightarrow> board \<Rightarrow> heap" where
  "storeRows h refs b = fold (\<lambda>(ra, xs) h'. h'[ra := Row xs]) (zip refs b) h"

definition countSolutionsH :: "heap \<Rightarrow> nat \<Rightarrow> (heap \<times> nat) option" where
  "countSolutionsH h a =
     (case countSolutions (readBoard h a) of
        None \<Rightarrow> None
      | Some (b', n) \<Rightarrow> Some (storeRows h (refsAt h a) b', n))"

fun pokeLoopH :: "heap \<Rightarrow> nat \<Rightarrow> nat \<Rightarrow> nat \<Rightarrow> (nat \<times> nat) list \<Rightarrow> (heap \<times> nat) option" where
  "pokeLoopH h pa holesPoked holesToPoke [] = Some (h, holesPoked)"
| "pokeLoopH h pa holesPoked holesToPoke ((row, col) # rest) =
     (if holesPoked \<ge> holesToPoke then Some (h, holesPoked)
      else
        (let backup = readCellH h pa row col;
             h1 = writeCellH h pa row col 0;
             (h2, ca) = copyBoardH h1 pa
         in case countSolutionsH h2 ca of
              None \<Rightarrow> None
            | Some (h3, solutions) \<Rightarrow>
                if solutions = 1 then pokeLoopH h3 pa (holesPoked + 1) holesToPoke rest
                else pokeLoopH (writeCellH h3 pa row col backup) pa holesPoked holesToPoke rest))"

text \<open>The result is the store, the address of the puzzle and the rest of the draws.\<close>

definition pokeHolesH :: "heap \<Rightarrow> nat \<Rightarrow> string \<Rightarrow> rng \<Rightarrow> (heap \<times> nat \<times> rng) option" where
  "pokeHolesH h a tag rs =
     (let (minNumbers, maxNumbers) = clueRange tag in
      case randomInt (maxNumbers - minNumbers + 1) rs of None \<Rightarrow> None | Some (k, rs1) \<Rightarrow>
        (let numbersToKeep = k + minNumbers;
             holesToPoke = 81 - numbersToKeep
         in case shuffleArray (List.product [0..<9] [0..<9]) rs1 of None \<Rightarrow> None
            | Some (positions, rs2) \<Rightarrow>
                (let (h1, pa) = copyBoardH h a
                 in case pokeLoopH h1 pa 0 holesToPoke positions of None \<Rightarrow> None
                    | Some (h2, holesPoked) \<Rightarrow> Some (h2, pa, rs2))))"

text \<open>
  \<open>generate\<close> on the store: the full board is a new object, \<open>pokeHoles\<close> gets its address,
  and the result holds the two addresses.
\<close>

record generationH =
  puzzleRef :: nat
  solutionRef :: nat
  difficultyTag :: string

definition generateH :: "heap \<Rightarrow> string \<Rightarrow> rng \<Rightarrow> (heap \<times> generationH \<times> rng) option" where
  "generateH h tag rs =
     (case generateFullBoard rs of None \<Rightarrow> None | Some (full, rs1) \<Rightarrow>
        (let (h1, sa) = allocBoard h full
         in case pokeHolesH h1 sa tag rs1 of None \<Rightarrow> None
            | Some (h2, pa, rs2) \<Rightarrow>
                Some (h2, \<lparr>puzzleRef = pa, solutionRef = sa, difficultyTag = tag\<rparr>, rs2)))"

text \<open>
  A 9x9 grid object at address \<open>a\<close>: an outer array of nine distinct references to row
  objects of nine numbers.
\<close>

definition validGrid :: "heap \<Rightarrow> nat \<Rightarrow> bool" where
  "validGrid h a =
     (a < length h \<and> (case h ! a of
        Row xs \<Rightarrow> False
      | Grid refs \<Rightarrow> length refs = 9 \<and> distinct refs
          \<and> list_all (\<lambda>ra. ra < length h \<and> (case h ! ra of Row xs \<Rightarrow> length xs = 9 | Grid rs \<Rightarrow> False)) refs))"

text \<open>A grid object all of whose arrays were allocated at address \<open>base\<close> or later.\<close>

definition ownedGrid :: "nat \<Rightarrow> heap \<Rightarrow> nat \<Rightarrow> bool" where
  "ownedGrid base h a = (validGrid h a \<and> base \<le> a \<and> list_all (\<lambda>ra. base \<le> ra) (refsAt h a))"

subsection \<open>Vocabulary of the specification\<close>

text \<open>
  The specification's reading of \<open>isValid\<close> in its section 4.1: the value appears
  "elsewhere" (in a cell other than \<open>(row, col)\<close>) in the row, the column or the box.
\<close>

definition sameUnit :: "nat \<Rightarrow> nat \<Rightarrow> nat \<Rightarrow> nat \<Rightarrow> bool" where
  "sameUnit row col r c = (r = row \<or> c = col \<or> (r div 3 = row div 3 \<and> c div 3 = col div 3))"

definition appearsElsewhere :: "board \<Rightarrow> nat \<Rightarrow> nat \<Rightarrow> int \<Rightarrow> bool" where
  "appearsElsewhere g row col v =
     list_ex (\<lambda>r. list_ex (\<lambda>c. (r, c) \<noteq> (row, col) \<and> sameUnit row col r c \<and> g ! r ! c = v) [0..<9]) [0..<9]"

text \<open>The reading of its section 8: the value occurs in the row, the column or the box.\<close>

definition appearsInUnits :: "board \<Rightarrow> nat \<Rightarrow> nat \<Rightarrow> int \<Rightarrow> bool" where
  "appearsInUnits g row col v =
     list_ex (\<lambda>r. list_ex (\<lambda>c. sameUnit row col r c \<and> g ! r ! c = v) [0..<9]) [0..<9]"

text \<open>A serialized grid is malformed when its length is not 81 or a value is outside 0..9.\<close>

definition malformedFlat :: "int list \<Rightarrow> bool" where
  "malformedFlat flat = (length flat \<noteq> 81 \<or> list_ex (\<lambda>v. v < 0 \<or> 9 < v) flat)"

text \<open>
  A complete valid grid (the specification's data model): every row, every column and every
  one of the nine 3x3 boxes contains each digit 1..9 exactly once.
\<close>

definition allCells :: "(nat \<times> nat) list" where
  "allCells = List.product [0..<9] [0..<9]"

definition rowCells :: "nat \<Rightarrow> (nat \<times> nat) list" where
  "rowCells r = map (\<lambda>c. (r, c)) [0..<9]"

definition colCells :: "nat \<Rightarrow> (nat \<times> nat) list" where
  "colCells c = map (\<lambda>r. (r, c)) [0..<9]"

definition boxCells :: "nat \<Rightarrow> (nat \<times> nat) list" where
  "boxCells k = map (\<lambda>(i, j). (3 * (k div 3) + i, 3 * (k mod 3) + j)) (List.product [0..<3] [0..<3])"

definition units :: "(nat \<times> nat) list list" where
  "units = map rowCells [0..<9] @ map colCells [0..<9] @ map boxCells [0..<9]"

definition onceEach :: "board \<Rightarrow> (nat \<times> nat) list \<Rightarrow> bool" where
  "onceEach g u = list_all (\<lambda>d. count_list (map (\<lambda>(r, c). g ! r ! c) u) d = 1) [1..9]"

definition completeValid :: "board \<Rightarrow> bool" where
  "completeValid g = (wellFormed g \<and> list_all (onceEach g) units)"

text \<open>
  A grid \<open>g\<close> is a completion of a puzzle \<open>b\<close> when it is complete and valid and agrees with
  \<open>b\<close> on every non-empty cell of \<open>b\<close>.
\<close>

definition agrees :: "board \<Rightarrow> board \<Rightarrow> bool" where
  "agrees g b = list_all (\<lambda>(r, c). b ! r ! c = 0 \<or> g ! r ! c = b ! r ! c) allCells"

definition completions :: "board \<Rightarrow> board set" where
  "completions b = {g. completeValid g \<and> agrees g b}"

text \<open>The number of clues (non-zero cells) and of empty cells of a board.\<close>

definition clues :: "board \<Rightarrow> nat" where
  "clues b = length (filter (\<lambda>(r, c). b ! r ! c \<noteq> 0) allCells)"

definition empties :: "board \<Rightarrow> nat" where
  "empties b = length (filter (\<lambda>(r, c). b ! r ! c = 0) allCells)"

text \<open>
  The invariant of the search: a 9x9 board with entries in 0..9 in which no digit stands
  twice in a row, a column or a box.
\<close>

definition consistent :: "board \<Rightarrow> bool" where
  "consistent b =
     (wellFormed b \<and> (\<forall>r<9. \<forall>c<9. 0 \<le> b ! r ! c \<and> b ! r ! c \<le> 9)
      \<and> (\<forall>r<9. \<forall>c<9. \<forall>r'<9. \<forall>c'<9.
            (r, c) \<noteq> (r', c') \<and> sameUnit r c r' c' \<and> b ! r ! c \<noteq> 0 \<longrightarrow> b ! r ! c \<noteq> b ! r' ! c'))"

text \<open>Two complete valid grids, used as concrete inputs.\<close>

definition sampleGridA :: board where
  "sampleGridA =
    [[1, 2, 3, 4, 5, 6, 7, 8, 9],
     [4, 5, 6, 7, 8, 9, 1, 2, 3],
     [7, 8, 9, 1, 2, 3, 4, 5, 6],
     [2, 3, 4, 5, 6, 7, 8, 9, 1],
     [5, 6, 7, 8, 9, 1, 2, 3, 4],
     [8, 9, 1, 2, 3, 4, 5, 6, 7],
     [3, 4, 5, 6, 7, 8, 9, 1, 2],
     [6, 7, 8, 9, 1, 2, 3, 4, 5],
     [9, 1, 2, 3, 4, 5, 6, 7, 8]]"

definition sampleGridB :: board where
  "sampleGridB =
    [[4, 5, 6, 7, 8, 9, 1, 2, 3],
     [1, 2, 3, 4, 5, 6, 7, 8, 9],
     [7, 8, 9, 1, 2, 3, 4, 5, 6],
     [2, 3, 4, 5, 6, 7, 8, 9, 1],
     [5, 6, 7, 8, 9, 1, 2, 3, 4],
     [8, 9, 1, 2, 3, 4, 5, 6, 7],
     [3, 4, 5, 6, 7, 8, 9, 1, 2],
     [6, 7, 8, 9, 1, 2, 3, 4, 5],
     [9, 1, 2, 3, 4, 5, 6, 7, 8]]"

text \<open>
  The state of the board while \<open>generateFullBoard\<close> seeds it: consistent, and empty outside
  the three diagonal boxes.
\<close>

definition seedInv :: "board \<Rightarrow> bool" where
  "seedInv b = (consistent b \<and> (\<forall>r<9. \<forall>c<9. r div 3 \<noteq> c div 3 \<longrightarrow> b ! r ! c = 0))"

text \<open>A concrete source of randomness: 27 draws that seed the diagonal boxes, then 81 zeros.\<close>

definition sampleDraws :: rng where
  "sampleDraws = [0, 1, 2, 3, 4, 5, 6, 7, 8] @ [0, 1, 2, 3, 4, 5, 6, 7, 8] @ [0, 1, 2, 3, 4, 5, 6, 7, 8]
                 @ replicate 81 0"

text \<open>The board that the first 27 draws of \<open>sampleDraws\<close> seed.\<close>

definition sampleSeed :: board where
  "sampleSeed =
    [[1, 2, 3, 0, 0, 0, 0, 0, 0],
     [4, 5, 6, 0, 0, 0, 0, 0, 0],
     [7, 8, 9, 0, 0, 0, 0, 0, 0],
     [0, 0, 0, 1, 2, 3, 0, 0, 0],
     [0, 0, 0, 4, 5, 6, 0, 0, 0],
     [0, 0, 0, 7, 8, 9, 0, 0, 0],
     [0, 0, 0, 0, 0, 0, 1, 2, 3],
     [0, 0, 0, 0, 0, 0, 4, 5, 6],
     [0, 0, 0, 0, 0, 0, 7, 8, 9]]"

section \<open>Serializer\<close>

lemma wellFormed_nth_length: "wellFormed b \<Longrightarrow> r < 9 \<Longrightarrow> length (b ! r) = 9"
  by (simp add: wellFormed_def list_all_length)

lemma concat_take_drop_rows:
  "\<forall>row \<in> set rows. length row = n \<Longrightarrow> i < length rows \<Longrightarrow>
   take n (drop (i * n) (concat rows)) = rows ! i"
proof (induction rows arbitrary: i)
  case Nil
  then show ?case by simp
next
  case (Cons row rows)
  show ?case
  proof (cases i)
    case 0
    with Cons.prems show ?thesis by simp
  next
    case (Suc k)
    with Cons.prems have "k < length rows" and "length row = n" by simp_all
    with Cons.IH[of k] Cons.prems(1) Suc show ?thesis by simp
  qed
qed

lemma length_concat_rows:
  "\<forall>row \<in> set rows. length row = n \<Longrightarrow> length (concat rows) = length rows * n"
  by (induction rows) simp_all

lemma concat_nth_rows:
  "\<forall>row \<in> set rows. length row = n \<Longrightarrow> r < length rows \<Longrightarrow> c < n \<Longrightarrow>
   concat rows ! (r * n + c) = rows ! r ! c"
proof (induction rows arbitrary: r)
  case Nil
  then show ?case by simp
next
  case (Cons row rows)
  show ?case
  proof (cases r)
    case 0
    with Cons.prems show ?thesis by (simp add: nth_append)
  next
    case (Suc k)
    with Cons.prems have "k < length rows" and "length row = n" by simp_all
    with Cons.IH[of k] Cons.prems(1,3) Suc show ?thesis by (simp add: nth_append)
  qed
qed

lemma fromFlatArray_rows:
  "length (fromFlatArray flat) = 9 \<and> (\<forall>i<9. fromFlatArray flat ! i = take 9 (drop (i * 9) flat))"
  by (simp add: fromFlatArray_def)

text \<open>
  C5. Round trip: for every 9x9 grid \<open>g\<close> (whatever its entries, so in particular with
  entries in 0..9), \<open>toFlatArray g\<close> has 81 elements, holds cell \<open>(r, c)\<close> at index
  \<open>9 * r + c\<close> (row-major), and \<open>fromFlatArray\<close> gives \<open>g\<close> back.
\<close>

theorem roundtrip_flat:
  assumes "wellFormed g"
  shows "fromFlatArray (toFlatArray g) = g
       \<and> length (toFlatArray g) = 81
       \<and> (\<forall>r<9. \<forall>c<9. toFlatArray g ! (9 * r + c) = g ! r ! c)"
proof -
  from assms have len: "length g = 9" and rows: "\<forall>row \<in> set g. length row = 9"
    by (simp_all add: wellFormed_def list_all_iff)
  have "fromFlatArray (toFlatArray g) = map (\<lambda>i. g ! i) [0..<length g]"
    unfolding fromFlatArray_def toFlatArray_def len
    by (rule map_cong[OF refl]) (simp add: concat_take_drop_rows[OF rows] len)
  then have a: "fromFlatArray (toFlatArray g) = g"
    by (simp add: map_nth)
  have b: "length (toFlatArray g) = 81"
    by (simp add: toFlatArray_def length_concat_rows[OF rows] len)
  have c: "\<forall>r<9. \<forall>c<9. toFlatArray g ! (9 * r + c) = g ! r ! c"
    using concat_nth_rows[OF rows] len by (simp add: toFlatArray_def mult.commute)
  from a b c show ?thesis by simp
qed

lemma upt_9: "[0..<9] = [0, 1, 2, 3, 4, 5, 6, 7, 8]"
  by code_simp

lemma upt_3: "[0..<3] = [0, 1, 2]"
  by code_simp

theorem roundtrip_flat_witness:
  "wellFormed createEmptyBoard \<and> fromFlatArray (toFlatArray createEmptyBoard) = createEmptyBoard
   \<and> length (toFlatArray createEmptyBoard) = 81"
proof -
  have h: "wellFormed createEmptyBoard" by (simp add: wellFormed_def createEmptyBoard_def list_all_iff)
  from roundtrip_flat[OF h] h show ?thesis by simp
qed

text \<open>
  C8 as stated fails: \<open>fromFlatArray\<close> has no validation. On the empty sequence (length 0,
  not 81) it returns nine empty rows, and on 81 tens (values outside 0..9) it returns a 9x9
  grid of tens; nothing is signalled.
\<close>

theorem fromFlatArray_malformed_counterexample:
  "malformedFlat [] \<and> fromFlatArray [] = [[], [], [], [], [], [], [], [], []]
   \<and> malformedFlat (replicate 81 10) \<and> fromFlatArray (replicate 81 10) = replicate 9 (replicate 9 10)"
  by code_simp

text \<open>
  C8, amended: on every input sequence, malformed or not, \<open>fromFlatArray\<close> returns nine
  rows, row \<open>i\<close> being the slice of the input from index \<open>9 * i\<close> to \<open>9 * i + 9\<close>, clamped to
  the input; it performs no validation and signals no error.
\<close>

theorem fromFlatArray_no_validation:
  "length (fromFlatArray flat) = 9
   \<and> fromFlatArray flat = map (\<lambda>i. take 9 (drop (9 * i) flat)) [0, 1, 2, 3, 4, 5, 6, 7, 8]"
  by (simp add: fromFlatArray_def upt_9)

section \<open>Constraint checker\<close>

lemma list_ex_upt: "list_ex P [0..<n] = (\<exists>i<n. P i)"
  by (auto simp: list_ex_iff)

lemma box_index: "r < 9 \<Longrightarrow> (r div 3 = row div 3) = (\<exists>i<3. r = row div 3 * 3 + i)" for r row :: nat
proof
  assume "r div 3 = row div 3"
  then have "r = row div 3 * 3 + r mod 3" by (metis div_mult_mod_eq)
  then show "\<exists>i<3. r = row div 3 * 3 + i" by (intro exI[of _ "r mod 3"]) simp
next
  assume "\<exists>i<3. r = row div 3 * 3 + i"
  then show "r div 3 = row div 3" by auto
qed

lemma box_bound: "row < 9 \<Longrightarrow> i < 3 \<Longrightarrow> row div 3 * 3 + i < 9" for row i :: nat
  by (simp add: less_mult_imp_div_less add.commute) arith

lemma isValid_iff:
  "isValid g row col v =
     (\<not> ((\<exists>x<9. g ! row ! x = v) \<or> (\<exists>x<9. g ! x ! col = v)
        \<or> (\<exists>i<3. \<exists>j<3. g ! (row div 3 * 3 + i) ! (col div 3 * 3 + j) = v)))"
  by (simp add: isValid_def Let_def list_ex_upt)

lemma appearsInUnits_iff:
  assumes "row < 9" "col < 9"
  shows "appearsInUnits g row col v =
     ((\<exists>x<9. g ! row ! x = v) \<or> (\<exists>x<9. g ! x ! col = v)
        \<or> (\<exists>i<3. \<exists>j<3. g ! (row div 3 * 3 + i) ! (col div 3 * 3 + j) = v))"
proof -
  have box: "(\<exists>r<9. \<exists>c<9. r div 3 = row div 3 \<and> c div 3 = col div 3 \<and> g ! r ! c = v)
      = (\<exists>i<3. \<exists>j<3. g ! (row div 3 * 3 + i) ! (col div 3 * 3 + j) = v)" (is "?L = ?R")
  proof
    assume ?L
    then obtain r c where rc: "r < 9" "c < 9" "r div 3 = row div 3" "c div 3 = col div 3" "g ! r ! c = v"
      by blast
    from rc(1,3) obtain i where i: "i < 3" "r = row div 3 * 3 + i" using box_index by blast
    from rc(2,4) obtain j where j: "j < 3" "c = col div 3 * 3 + j" using box_index by blast
    from i j rc(5) show ?R by blast
  next
    assume ?R
    then obtain i j where ij: "i < 3" "j < 3" "g ! (row div 3 * 3 + i) ! (col div 3 * 3 + j) = v"
      by blast
    let ?r = "row div 3 * 3 + i" and ?c = "col div 3 * 3 + j"
    from assms ij have "?r < 9" "?c < 9" "?r div 3 = row div 3" "?c div 3 = col div 3"
      by (simp_all add: box_bound)
    with ij(3) show ?L by blast
  qed
  have "appearsInUnits g row col v =
     ((\<exists>r<9. \<exists>c<9. r = row \<and> g ! r ! c = v) \<or> (\<exists>r<9. \<exists>c<9. c = col \<and> g ! r ! c = v)
      \<or> (\<exists>r<9. \<exists>c<9. r div 3 = row div 3 \<and> c div 3 = col div 3 \<and> g ! r ! c = v))"
    unfolding appearsInUnits_def sameUnit_def list_ex_upt by blast
  also have "\<dots> = ((\<exists>x<9. g ! row ! x = v) \<or> (\<exists>x<9. g ! x ! col = v)
        \<or> (\<exists>i<3. \<exists>j<3. g ! (row div 3 * 3 + i) ! (col div 3 * 3 + j) = v))"
    unfolding box using assms by blast
  finally show ?thesis .
qed

text \<open>
  C4 as stated fails: the scans of \<open>isValid\<close> do not skip the cell \<open>(row, col)\<close> itself. On
  the board that is empty but for a 5 at \<open>(0, 0)\<close>, the 5 appears nowhere else, yet
  \<open>isValid\<close> at \<open>(0, 0)\<close> with 5 is false.
\<close>

theorem isValid_elsewhere_counterexample:
  "wellFormed (setCell createEmptyBoard 0 0 5)
   \<and> \<not> appearsElsewhere (setCell createEmptyBoard 0 0 5) 0 0 5
   \<and> isValid (setCell createEmptyBoard 0 0 5) 0 0 5 = False"
  by code_simp

text \<open>
  C4, amended: for every grid, every row and col in 0..8 and every value, \<open>isValid\<close> is
  false exactly when the value occurs in some cell of the row, of the column or of the 3x3
  box of \<open>(row, col)\<close>, the cell \<open>(row, col)\<close> itself included, and true otherwise.
\<close>

theorem isValid_spec:
  assumes "row < 9" "col < 9"
  shows "isValid g row col v = (\<not> appearsInUnits g row col v)"
  by (simp only: isValid_iff appearsInUnits_iff[OF assms])

theorem isValid_spec_witness:
  "(4::nat) < 9 \<and> (7::nat) < 9
   \<and> isValid (setCell createEmptyBoard 0 4 5) 0 7 5 = (\<not> appearsInUnits (setCell createEmptyBoard 0 4 5) 0 7 5)
   \<and> isValid (setCell createEmptyBoard 0 4 5) 0 7 5 = False"
proof -
  have "isValid (setCell createEmptyBoard 0 4 5) 0 7 5 = (\<not> appearsInUnits (setCell createEmptyBoard 0 4 5) 0 7 5)"
    by (rule isValid_spec) simp_all
  moreover have "isValid (setCell createEmptyBoard 0 4 5) 0 7 5 = False"
    by code_simp
  ultimately show ?thesis by simp
qed

section \<open>Boards\<close>

lemma set_allCells: "set allCells = {(r, c). r < 9 \<and> c < 9}"
  by (auto simp: allCells_def)

lemma distinct_allCells: "distinct allCells"
  by (simp add: allCells_def distinct_product)

lemma length_allCells: "length allCells = 81"
  by (simp add: allCells_def)

lemma wellFormed_setCell: "wellFormed b \<Longrightarrow> wellFormed (setCell b r c v)"
proof (cases "r < length b")
  case True
  assume "wellFormed b"
  with True show ?thesis
    by (auto simp: wellFormed_def setCell_def list_all_length nth_list_update)
next
  case False
  assume "wellFormed b"
  with False show ?thesis by (simp add: setCell_def list_update_beyond)
qed

lemma nth_setCell:
  "wellFormed b \<Longrightarrow> r < 9 \<Longrightarrow> c < 9 \<Longrightarrow> r' < 9 \<Longrightarrow> c' < 9 \<Longrightarrow>
   setCell b r c v ! r' ! c' = (if r' = r \<and> c' = c then v else b ! r' ! c')"
  by (auto simp: setCell_def wellFormed_def list_all_length nth_list_update)

lemma setCell_setCell: "setCell (setCell b r c v) r c w = setCell b r c w"
  by (cases "r < length b") (simp_all add: setCell_def list_update_beyond)

lemma setCell_same: "setCell b r c (b ! r ! c) = b"
  by (simp add: setCell_def)

lemma setCell_restore: "b ! r ! c = 0 \<Longrightarrow> setCell (setCell b r c v) r c 0 = b"
  using setCell_same[of b r c] by (simp add: setCell_setCell)

lemma board_eqI:
  assumes "wellFormed g" "wellFormed b" "\<And>r c. r < 9 \<Longrightarrow> c < 9 \<Longrightarrow> g ! r ! c = b ! r ! c"
  shows "g = b"
proof (rule nth_equalityI)
  from assms(1,2) show "length g = length b" by (simp add: wellFormed_def)
next
  fix r assume "r < length g"
  with assms(1) have r: "r < 9" by (simp add: wellFormed_def)
  show "g ! r = b ! r"
  proof (rule nth_equalityI)
    from r assms(1,2) show "length (g ! r) = length (b ! r)" by (simp add: wellFormed_nth_length)
  next
    fix c assume "c < length (g ! r)"
    with r assms(1) have "c < 9" by (simp add: wellFormed_nth_length)
    with r show "g ! r ! c = b ! r ! c" by (rule assms(3))
  qed
qed

lemma findEmpty_None: "findEmpty b = None \<longleftrightarrow> (\<forall>r<9. \<forall>c<9. b ! r ! c \<noteq> 0)"
  unfolding findEmpty_def find_None_iff allCells_def[symmetric] set_allCells by auto

lemma findEmpty_Some:
  assumes "findEmpty b = Some (r, c)"
  shows "r < 9 \<and> c < 9 \<and> b ! r ! c = 0"
proof -
  from assms have "(r, c) \<in> set allCells \<and> (case (r, c) of (row, col) \<Rightarrow> b ! row ! col = 0)"
    unfolding findEmpty_def allCells_def[symmetric] find_Some_iff by (metis nth_mem)
  then show ?thesis by (simp add: set_allCells)
qed

lemma empties_setCell:
  assumes "wellFormed b" "r < 9" "c < 9" "b ! r ! c = 0" "v \<noteq> 0"
  shows "empties (setCell b r c v) < empties b"
proof -
  let ?P = "\<lambda>(r', c'). setCell b r c v ! r' ! c' = 0" and ?Q = "\<lambda>(r', c'). b ! r' ! c' = 0"
  have sub: "set (filter ?P allCells) \<subset> set (filter ?Q allCells)"
  proof
    show "set (filter ?P allCells) \<subseteq> set (filter ?Q allCells)"
      using assms by (auto simp: set_allCells nth_setCell split: if_splits)
    have "(r, c) \<in> set (filter ?Q allCells)" using assms by (simp add: set_allCells)
    moreover have "(r, c) \<notin> set (filter ?P allCells)" using assms by (simp add: set_allCells nth_setCell)
    ultimately show "set (filter ?P allCells) \<noteq> set (filter ?Q allCells)" by blast
  qed
  have "card (set (filter ?P allCells)) < card (set (filter ?Q allCells))"
    by (rule psubset_card_mono[OF _ sub]) simp
  then show ?thesis
    unfolding empties_def
    using distinct_card[OF distinct_filter[OF distinct_allCells, of ?P]]
      distinct_card[OF distinct_filter[OF distinct_allCells, of ?Q]] by simp
qed

lemma empties_le: "empties b \<le> 81"
  unfolding empties_def using length_filter_le[of _ allCells] by (simp add: length_allCells)

section \<open>Completions of a board\<close>

lemma appearsInUnits_ex:
  "appearsInUnits g row col v = (\<exists>r<9. \<exists>c<9. sameUnit row col r c \<and> g ! r ! c = v)"
  by (simp add: appearsInUnits_def list_ex_upt)

lemma agrees_iff: "agrees g b = (\<forall>r<9. \<forall>c<9. b ! r ! c = 0 \<or> g ! r ! c = b ! r ! c)"
  by (auto simp: agrees_def list_all_iff set_allCells)

lemma units_shape:
  "list_all (\<lambda>u. distinct u \<and> length u = 9
      \<and> list_all (\<lambda>(r, c). r < 9 \<and> c < 9 \<and> list_all (\<lambda>(r', c'). sameUnit r c r' c') u) u) units"
  by code_simp

lemma unit_props:
  assumes "u \<in> set units"
  shows "distinct u" "length u = 9"
    "\<And>r c. (r, c) \<in> set u \<Longrightarrow> r < 9 \<and> c < 9"
    "\<And>r c r' c'. (r, c) \<in> set u \<Longrightarrow> (r', c') \<in> set u \<Longrightarrow> sameUnit r c r' c'"
  using units_shape assms by (fastforce simp: list_all_iff)+

lemma rowCells_unit: "r < 9 \<Longrightarrow> rowCells r \<in> set units"
  by (simp add: units_def)

lemma colCells_unit: "c < 9 \<Longrightarrow> colCells c \<in> set units"
  by (simp add: units_def)

lemma boxCells_unit: "k < 9 \<Longrightarrow> boxCells k \<in> set units"
  by (simp add: units_def)

lemma in_rowCells: "c < 9 \<Longrightarrow> (r, c) \<in> set (rowCells r)"
  by (simp add: rowCells_def)

lemma in_colCells: "r < 9 \<Longrightarrow> (r, c) \<in> set (colCells c)"
  by (simp add: colCells_def)

lemma in_boxCells: 
  assumes "r < 9" "c < 9" "r div 3 = r' div 3" "c div 3 = c' div 3"
  shows "(r, c) \<in> set (boxCells (3 * (r' div 3) + c' div 3))"
proof -
  have k: "(3 * (r' div 3) + c' div 3) div 3 = r div 3" "(3 * (r' div 3) + c' div 3) mod 3 = c div 3"
    using assms by auto
  have "(r, c) = (3 * (r div 3) + r mod 3, 3 * (c div 3) + c mod 3)" by simp
  moreover have "(r mod 3, c mod 3) \<in> set (List.product [0..<3] [0..<3])" by simp
  ultimately show ?thesis unfolding boxCells_def k 
    by (metis (no_types, lifting) image_eqI list.set_map old.prod.case)
qed

lemma common_unit:
  assumes "r < 9" "c < 9" "r' < 9" "c' < 9" "sameUnit r c r' c'"
  shows "\<exists>u \<in> set units. (r, c) \<in> set u \<and> (r', c') \<in> set u"
proof -
  from assms(5) consider "r' = r" | "c' = c" | "r' div 3 = r div 3 \<and> c' div 3 = c div 3"
    by (auto simp: sameUnit_def)
  then show ?thesis
  proof cases
    case 1
    with assms show ?thesis using rowCells_unit[of r] in_rowCells by blast
  next
    case 2
    with assms show ?thesis using colCells_unit[of c] in_colCells by blast
  next
    case 3
    let ?k = "3 * (r div 3) + c div 3"
    from assms have "r div 3 < 3" "c div 3 < 3" by (simp_all add: div_less_iff_less_mult)
    then have "?k < 9" by arith
    moreover from assms have "(r, c) \<in> set (boxCells ?k)" by (intro in_boxCells) simp_all
    moreover from assms 3 have "(r', c') \<in> set (boxCells ?k)" by (intro in_boxCells) simp_all
    ultimately show ?thesis using boxCells_unit by blast
  qed
qed

lemma sameUnit_refl: "sameUnit r c r c"
  by (simp add: sameUnit_def)

lemma sameUnit_sym: "sameUnit r c r' c' \<Longrightarrow> sameUnit r' c' r c"
  by (auto simp: sameUnit_def)

lemma upto_1_9: "set [1..9::int] = {1..9}" 
  by simp

lemma count_list_distinct: "distinct xs \<Longrightarrow> x \<in> set xs \<Longrightarrow> count_list xs x = 1"
  by (induction xs) auto

lemma onceEach_iff:
  assumes "length u = 9"
  shows "onceEach g u \<longleftrightarrow> distinct (map (\<lambda>(r, c). g ! r ! c) u) \<and> set (map (\<lambda>(r, c). g ! r ! c) u) = {1..9}"
proof -
  let ?vs = "map (\<lambda>(r, c). g ! r ! c) u"
  have len: "length ?vs = 9" using assms by simp
  have card19: "card {1..9::int} = 9" by simp
  show ?thesis
  proof
    assume "onceEach g u"
    then have once: "\<And>d. d \<in> {1..9} \<Longrightarrow> count_list ?vs d = 1"
      unfolding onceEach_def list_all_iff by simp
    have sub: "{1..9} \<subseteq> set ?vs"
    proof
      fix d :: int assume "d \<in> {1..9}"
      then have "count_list ?vs d = 1" by (rule once)
      then show "d \<in> set ?vs" by (metis count_list_0_iff zero_neq_one)
    qed
    then have "card {1..9::int} \<le> card (set ?vs)" by (intro card_mono) simp_all
    with card19 len have c: "card (set ?vs) = length ?vs"
      using card_length[of ?vs] by simp
    then have d: "distinct ?vs" by (rule card_distinct)
    have "card (set ?vs) = card {1..9::int}" using c len card19 by simp
    then have "set ?vs = {1..9}"
      using card_subset_eq[OF _ sub] by simp
    with d show "distinct ?vs \<and> set ?vs = {1..9}" by simp
  next
    assume a: "distinct ?vs \<and> set ?vs = {1..9}"
    then have "\<And>d. d \<in> {1..9} \<Longrightarrow> count_list ?vs d = 1"
      by (simp add: count_list_distinct)
    then show "onceEach g u" unfolding onceEach_def list_all_iff by simp
  qed
qed

lemma completeValid_iff:
  "completeValid g \<longleftrightarrow>
     wellFormed g \<and> (\<forall>r<9. \<forall>c<9. 1 \<le> g ! r ! c \<and> g ! r ! c \<le> 9)
     \<and> (\<forall>r<9. \<forall>c<9. \<forall>r'<9. \<forall>c'<9.
            (r, c) \<noteq> (r', c') \<and> sameUnit r c r' c' \<longrightarrow> g ! r ! c \<noteq> g ! r' ! c')"
  (is "?L \<longleftrightarrow> ?W \<and> ?R \<and> ?D")
proof
  assume L: ?L
  then have W: ?W by (simp add: completeValid_def)
  from L have U: "\<And>u. u \<in> set units \<Longrightarrow>
      distinct (map (\<lambda>(r, c). g ! r ! c) u) \<and> set (map (\<lambda>(r, c). g ! r ! c) u) = {1..9}"
    unfolding completeValid_def list_all_iff using onceEach_iff unit_props(2) by blast
  have R: ?R
  proof (intro allI impI)
    fix r c :: nat assume r: "r < 9" and c: "c < 9"
    from U[OF rowCells_unit[OF r]] in_rowCells[OF c, of r]
    have "g ! r ! c \<in> {1..9}" by force
    then show "1 \<le> g ! r ! c \<and> g ! r ! c \<le> 9" by simp
  qed
  have D: ?D
  proof (intro allI impI)
    fix r c r' c' :: nat
    assume r: "r < 9" and c: "c < 9" and r': "r' < 9" and c': "c' < 9"
      and h: "(r, c) \<noteq> (r', c') \<and> sameUnit r c r' c'"
    from common_unit[OF r c r' c'] h obtain u where u: "u \<in> set units" "(r, c) \<in> set u" "(r', c') \<in> set u"
      by blast
    from U[OF u(1)] have "inj_on (\<lambda>(r, c). g ! r ! c) (set u)" by (simp add: distinct_map)
    from inj_onD[OF this _ u(2,3)] h show "g ! r ! c \<noteq> g ! r' ! c'" by auto
  qed
  from W R D show "?W \<and> ?R \<and> ?D" by blast
next
  assume a: "?W \<and> ?R \<and> ?D"
  have "onceEach g u" if u: "u \<in> set units" for u
  proof -
    let ?f = "\<lambda>(r, c). g ! r ! c"
    have inj: "inj_on ?f (set u)"
    proof (rule inj_onI)
      fix p q assume p: "p \<in> set u" and q: "q \<in> set u" and e: "?f p = ?f q"
      obtain r c r' c' where pq: "p = (r, c)" "q = (r', c')" by (cases p, cases q) blast
      from unit_props(3)[OF u] p q pq have b: "r < 9" "c < 9" "r' < 9" "c' < 9" by blast+
      from unit_props(4)[OF u] p q pq have "sameUnit r c r' c'" by blast
      from a have D: "\<And>r c r' c'. r < 9 \<Longrightarrow> c < 9 \<Longrightarrow> r' < 9 \<Longrightarrow> c' < 9 \<Longrightarrow>
          (r, c) \<noteq> (r', c') \<Longrightarrow> sameUnit r c r' c' \<Longrightarrow> g ! r ! c \<noteq> g ! r' ! c'"
        by blast
      show "p = q"
      proof (rule ccontr)
        assume "p \<noteq> q"
        with pq have "(r, c) \<noteq> (r', c')" by simp
        from D[OF b this \<open>sameUnit r c r' c'\<close>] e pq show False by simp
      qed
    qed
    then have d: "distinct (map ?f u)" using unit_props(1)[OF u] by (simp add: distinct_map)
    have sub: "set (map ?f u) \<subseteq> {1..9}"
      using a unit_props(3)[OF u] by auto
    have "card (set (map ?f u)) = 9" using d unit_props(2)[OF u] distinct_card[OF d] by simp
    then have "set (map ?f u) = {1..9}"
      by (intro card_subset_eq[OF _ sub]) simp_all
    with d show ?thesis using onceEach_iff[OF unit_props(2)[OF u]] by blast
  qed
  with a show ?L by (simp add: completeValid_def list_all_iff)
qed

lemma consistentD:
  assumes "consistent b"
  shows "wellFormed b"
    "\<And>r c. r < 9 \<Longrightarrow> c < 9 \<Longrightarrow> 0 \<le> b ! r ! c \<and> b ! r ! c \<le> 9"
    "\<And>r c r' c'. r < 9 \<Longrightarrow> c < 9 \<Longrightarrow> r' < 9 \<Longrightarrow> c' < 9 \<Longrightarrow> (r, c) \<noteq> (r', c') \<Longrightarrow>
        sameUnit r c r' c' \<Longrightarrow> b ! r ! c \<noteq> 0 \<Longrightarrow> b ! r ! c \<noteq> b ! r' ! c'"
  using assms unfolding consistent_def by blast+

lemma completeValidD:
  assumes "completeValid g"
  shows "wellFormed g"
    "\<And>r c. r < 9 \<Longrightarrow> c < 9 \<Longrightarrow> 1 \<le> g ! r ! c \<and> g ! r ! c \<le> 9"
    "\<And>r c r' c'. r < 9 \<Longrightarrow> c < 9 \<Longrightarrow> r' < 9 \<Longrightarrow> c' < 9 \<Longrightarrow> (r, c) \<noteq> (r', c') \<Longrightarrow>
        sameUnit r c r' c' \<Longrightarrow> g ! r ! c \<noteq> g ! r' ! c'"
  using assms unfolding completeValid_iff by blast+

lemma completeValid_consistent: "completeValid g \<Longrightarrow> consistent g"
  unfolding consistent_def using completeValidD[of g] by force

lemma completions_full:
  assumes "consistent b" "findEmpty b = None"
  shows "completions b = {b}"
proof -
  from assms(2) have nz: "\<And>r c. r < 9 \<Longrightarrow> c < 9 \<Longrightarrow> b ! r ! c \<noteq> 0"
    by (simp add: findEmpty_None)
  have "completeValid b"
    unfolding completeValid_iff
  proof (intro conjI allI impI)
    show "wellFormed b" by (rule consistentD(1)[OF assms(1)])
  next
    fix r c :: nat assume "r < 9" "c < 9"
    with consistentD(2)[OF assms(1), of r c] nz[of r c] show "1 \<le> b ! r ! c" "b ! r ! c \<le> 9" by simp_all
  next
    fix r c r' c' :: nat
    assume "r < 9" "c < 9" "r' < 9" "c' < 9" "(r, c) \<noteq> (r', c') \<and> sameUnit r c r' c'"
    with consistentD(3)[OF assms(1), of r c r' c'] nz[of r c] show "b ! r ! c \<noteq> b ! r' ! c'" by blast
  qed
  moreover have "agrees b b" by (simp add: agrees_iff)
  moreover have "g = b" if "g \<in> completions b" for g
  proof (rule board_eqI)
    from that show "wellFormed g" by (simp add: completions_def completeValid_def)
    show "wellFormed b" by (rule consistentD(1)[OF assms(1)])
    fix r c :: nat assume "r < 9" "c < 9"
    with that nz[of r c] show "g ! r ! c = b ! r ! c" by (auto simp: completions_def agrees_iff)
  qed
  ultimately show ?thesis by (auto simp: completions_def)
qed

lemma completions_branch:
  assumes wf: "wellFormed b" and fe: "findEmpty b = Some (r, c)"
  shows "completions b = (\<Union>v \<in> {v \<in> {1..9}. isValid b r c v}. completions (setCell b r c v))"
proof -
  from findEmpty_Some[OF fe] have rc: "r < 9" "c < 9" and z: "b ! r ! c = 0" by simp_all
  show ?thesis
  proof (intro equalityI subsetI)
    fix g assume g: "g \<in> completions b"
    then have cv: "completeValid g" and ag: "agrees g b" by (simp_all add: completions_def)
    let ?v = "g ! r ! c"
    from completeValidD(2)[OF cv rc] have v19: "?v \<in> {1..9}" by simp
    have "\<not> appearsInUnits b r c ?v"
    proof
      assume "appearsInUnits b r c ?v"
      then obtain r' c' where p: "r' < 9" "c' < 9" "sameUnit r c r' c'" "b ! r' ! c' = ?v"
        unfolding appearsInUnits_ex by blast
      from p(4) v19 have nz: "b ! r' ! c' \<noteq> 0" by auto
      with z have ne: "(r, c) \<noteq> (r', c')" by auto
      from ag p(1,2) nz have "g ! r' ! c' = b ! r' ! c'" by (auto simp: agrees_iff)
      with p(4) completeValidD(3)[OF cv rc p(1,2) ne p(3)] show False by simp
    qed
    then have iv: "isValid b r c ?v" by (simp add: isValid_spec[OF rc])
    have "agrees g (setCell b r c ?v)"
      unfolding agrees_iff using ag by (auto simp: nth_setCell[OF wf rc] agrees_iff)
    with cv have "g \<in> completions (setCell b r c ?v)" by (simp add: completions_def)
    with v19 iv show "g \<in> (\<Union>v \<in> {v \<in> {1..9}. isValid b r c v}. completions (setCell b r c v))" by blast
  next
    fix g assume "g \<in> (\<Union>v \<in> {v \<in> {1..9}. isValid b r c v}. completions (setCell b r c v))"
    then obtain v where cv: "completeValid g" and ag: "agrees g (setCell b r c v)"
      by (auto simp: completions_def)
    have "agrees g b"
      unfolding agrees_iff
    proof (intro allI impI)
      fix r' c' :: nat assume p: "r' < 9" "c' < 9"
      from ag p have "setCell b r c v ! r' ! c' = 0 \<or> g ! r' ! c' = setCell b r c v ! r' ! c'"
        by (simp add: agrees_iff)
      then show "b ! r' ! c' = 0 \<or> g ! r' ! c' = b ! r' ! c'"
        using z by (auto simp: nth_setCell[OF wf rc p] split: if_splits)
    qed
    with cv show "g \<in> completions b" by (simp add: completions_def)
  qed
qed

lemma completions_cell:
  assumes "wellFormed b" "r < 9" "c < 9" "v \<noteq> 0" "g \<in> completions (setCell b r c v)"
  shows "g ! r ! c = v"
proof -
  from assms(5) have "agrees g (setCell b r c v)" by (simp add: completions_def)
  then have "setCell b r c v ! r ! c = 0 \<or> g ! r ! c = setCell b r c v ! r ! c"
    using assms(2,3) by (simp add: agrees_iff)
  with assms(1-4) show ?thesis by (simp add: nth_setCell)
qed

lemma finite_completions: "finite (completions b)"
proof -
  have "completions b \<subseteq> {g. set g \<subseteq> {row. set row \<subseteq> {1..9} \<and> length row = 9} \<and> length g = 9}"
  proof
    fix g assume "g \<in> completions b"
    then have cv: "completeValid g" by (simp add: completions_def)
    note wf = completeValidD(1)[OF cv]
    have "set row \<subseteq> {1..9} \<and> length row = 9" if "row \<in> set g" for row
    proof -
      from that obtain r where r: "r < length g" "row = g ! r" by (metis in_set_conv_nth)
      with wf have r9: "r < 9" by (simp add: wellFormed_def)
      have "x \<in> {1..9}" if "x \<in> set row" for x
      proof -
        from that obtain c where c: "c < length row" "x = row ! c" by (metis in_set_conv_nth)
        with r wellFormed_nth_length[OF wf r9] have "c < 9" by simp
        from completeValidD(2)[OF cv r9 this] c r show ?thesis by simp
      qed
      with r wellFormed_nth_length[OF wf r9] show ?thesis by auto
    qed
    with wf show "g \<in> {g. set g \<subseteq> {row. set row \<subseteq> {1..9} \<and> length row = 9} \<and> length g = 9}"
      by (auto simp: wellFormed_def)
  qed
  moreover have "finite {g. set g \<subseteq> {row. set row \<subseteq> {1..9::int} \<and> length row = 9} \<and> length g = 9}"
    by (intro finite_lists_length_eq) simp
  ultimately show ?thesis by (rule finite_subset)
qed

lemma consistent_setCell_peers:
  assumes con: "consistent b" and rc: "r < 9" "c < 9"
    and na: "\<And>r' c'. r' < 9 \<Longrightarrow> c' < 9 \<Longrightarrow> (r', c') \<noteq> (r, c) \<Longrightarrow> sameUnit r c r' c' \<Longrightarrow> b ! r' ! c' \<noteq> v"
    and v: "1 \<le> v" "v \<le> 9"
  shows "consistent (setCell b r c v)"
proof -
  note wf = consistentD(1)[OF con]
  show ?thesis
    unfolding consistent_def
  proof (intro conjI allI impI)
    show "wellFormed (setCell b r c v)" by (rule wellFormed_setCell[OF wf])
  next
    fix r' c' :: nat assume p: "r' < 9" "c' < 9"
    with consistentD(2)[OF con p] v
    show "0 \<le> setCell b r c v ! r' ! c'" "setCell b r c v ! r' ! c' \<le> 9"
      by (simp_all add: nth_setCell[OF wf rc])
  next
    fix r1 c1 r2 c2 :: nat
    assume p: "r1 < 9" "c1 < 9" "r2 < 9" "c2 < 9"
      and h: "(r1, c1) \<noteq> (r2, c2) \<and> sameUnit r1 c1 r2 c2 \<and> setCell b r c v ! r1 ! c1 \<noteq> 0"
    show "setCell b r c v ! r1 ! c1 \<noteq> setCell b r c v ! r2 ! c2"
    proof (cases "(r1, c1) = (r, c)")
      case True
      with h have "(r2, c2) \<noteq> (r, c)" "sameUnit r c r2 c2" by auto
      with na[OF p(3,4)] True p show ?thesis by (auto simp: nth_setCell[OF wf rc])
    next
      case False
      note ne1 = this
      show ?thesis
      proof (cases "(r2, c2) = (r, c)")
        case True
        with h have "sameUnit r c r1 c1" by (auto intro: sameUnit_sym)
        with na[OF p(1,2)] True ne1 p show ?thesis by (auto simp: nth_setCell[OF wf rc])
      next
        case False
        with ne1 h p consistentD(3)[OF con p] show ?thesis
          by (auto simp: nth_setCell[OF wf rc])
      qed
    qed
  qed
qed

lemma consistent_setCell:
  assumes con: "consistent b" and rc: "r < 9" "c < 9" and z: "b ! r ! c = 0"
    and iv: "isValid b r c v" and v: "1 \<le> v" "v \<le> 9"
  shows "consistent (setCell b r c v)"
proof (rule consistent_setCell_peers[OF con rc _ v])
  fix r' c' :: nat assume "r' < 9" "c' < 9" "sameUnit r c r' c'"
  with iv show "b ! r' ! c' \<noteq> v"
    unfolding isValid_spec[OF rc] appearsInUnits_ex by blast
qed

lemma card_completions_branch:
  assumes wf: "wellFormed b" and fe: "findEmpty b = Some (r, c)"
  shows "card (completions b)
       = sum_list (map (\<lambda>v. if isValid b r c v then card (completions (setCell b r c v)) else 0) [1..9])"
proof -
  from findEmpty_Some[OF fe] have rc: "r < 9" "c < 9" by simp_all
  let ?V = "{v \<in> {1..9}. isValid b r c v}"
  let ?f = "\<lambda>v. card (completions (setCell b r c v))"
  have "card (completions b) = card (\<Union>v \<in> ?V. completions (setCell b r c v))"
    by (simp only: completions_branch[OF wf fe])
  also have "\<dots> = (\<Sum>v \<in> ?V. ?f v)"
  proof (rule card_UN_disjoint)
    show "finite ?V" by (rule finite_subset[where B = "{1..9}"]) auto
    show "\<forall>v \<in> ?V. finite (completions (setCell b r c v))" by (simp add: finite_completions)
    show "\<forall>v \<in> ?V. \<forall>w \<in> ?V. v \<noteq> w \<longrightarrow> completions (setCell b r c v) \<inter> completions (setCell b r c w) = {}"
    proof (intro ballI impI)
      fix v w assume vw: "v \<in> ?V" "w \<in> ?V" "v \<noteq> w"
      then have "v \<noteq> 0" "w \<noteq> 0" by auto
      with completions_cell[OF wf rc] vw(3)
      show "completions (setCell b r c v) \<inter> completions (setCell b r c w) = {}" by blast
    qed
  qed
  also have "\<dots> = (\<Sum>v \<in> {1..9}. if isValid b r c v then ?f v else 0)"
    by (simp add: sum.inter_filter[symmetric])
  also have "\<dots> = sum_list (map (\<lambda>v. if isValid b r c v then ?f v else 0) [1..9])"
    using sum_list_distinct_conv_sum_set[of "[1..9::int]" "\<lambda>v. if isValid b r c v then ?f v else 0"]
    by simp
  finally show ?thesis .
qed

text \<open>The loop over the digits, for any recursive call that meets the contract.\<close>

lemma countNums_spec:
  assumes z: "b ! r ! c = 0"
    and rec: "\<And>v k. v \<in> set nums \<Longrightarrow> isValid b r c v \<Longrightarrow> k \<le> 1 \<Longrightarrow>
              rec (setCell b r c v) k = Some (setCell b r c v, min 2 (k + N v))"
    and k: "k \<le> 1"
  shows "countNums rec b k r c nums
       = Some (b, min 2 (k + sum_list (map (\<lambda>v. if isValid b r c v then N v else 0) nums)))"
  using rec k
proof (induction nums arbitrary: k)
  case Nil
  then show ?case by simp
next
  case (Cons v nums)
  show ?case
  proof (cases "isValid b r c v")
    case False
    have "countNums rec b k r c nums
        = Some (b, min 2 (k + sum_list (map (\<lambda>v. if isValid b r c v then N v else 0) nums)))"
      by (rule Cons.IH[OF _ Cons.prems(2)]) (simp add: Cons.prems(1))
    with False show ?thesis by simp
  next
    case True
    have r1: "rec (setCell b r c v) k = Some (setCell b r c v, min 2 (k + N v))"
      using Cons.prems(2) by (intro Cons.prems(1)) (simp_all add: True)
    show ?thesis
    proof (cases "min 2 (k + N v) > 1")
      case big: True
      then show ?thesis using True r1 by (simp add: setCell_restore[OF z])
    next
      case small: False
      then have le: "min 2 (k + N v) \<le> 1" and eq: "min 2 (k + N v) = k + N v" by auto
      have "countNums rec b (min 2 (k + N v)) r c nums
          = Some (b, min 2 (min 2 (k + N v) + sum_list (map (\<lambda>v. if isValid b r c v then N v else 0) nums)))"
        by (rule Cons.IH[OF _ le]) (simp add: Cons.prems(1))
      then show ?thesis using True r1 small by (simp add: setCell_restore[OF z] eq add.assoc)
    qed
  qed
qed

lemma solveCount_spec:
  "consistent b \<Longrightarrow> empties b < n \<Longrightarrow> k \<le> 1 \<Longrightarrow>
   solveCount n b k = Some (b, min 2 (k + card (completions b)))"
proof (induction n arbitrary: b k)
  case 0
  then show ?case by simp
next
  case (Suc n)
  note wf = consistentD(1)[OF Suc.prems(1)]
  show ?case
  proof (cases "findEmpty b")
    case None
    with completions_full[OF Suc.prems(1)] Suc.prems(3) show ?thesis by simp
  next
    case (Some p)
    obtain r c where p: "p = (r, c)" by (cases p)
    with Some have fe: "findEmpty b = Some (r, c)" by simp
    from findEmpty_Some[OF fe] have rc: "r < 9" "c < 9" and z: "b ! r ! c = 0" by simp_all
    have rec: "solveCount n (setCell b r c v) j
             = Some (setCell b r c v, min 2 (j + card (completions (setCell b r c v))))"
      if "v \<in> set [1..9]" "isValid b r c v" "j \<le> 1" for v j
    proof (rule Suc.IH)
      from that(1) have v: "1 \<le> v" "v \<le> 9" by simp_all
      show "consistent (setCell b r c v)"
        by (rule consistent_setCell[OF Suc.prems(1) rc z that(2) v])
      from v have "v \<noteq> 0" by simp
      from empties_setCell[OF wf rc z this] Suc.prems(2) show "empties (setCell b r c v) < n" by simp
      show "j \<le> 1" by (rule that(3))
    qed
    from countNums_spec[of b r c "[1..9]" "solveCount n" "\<lambda>v. card (completions (setCell b r c v))", OF z rec Suc.prems(3)]
    show ?thesis by (simp add: fe card_completions_branch[OF wf fe])
  qed
qed

section \<open>The search functions\<close>

lemma countNums_frame:
  assumes z: "b ! r ! c = 0"
    and rec: "\<And>v j. v \<in> set nums \<Longrightarrow> \<exists>j'. rec (setCell b r c v) j = Some (setCell b r c v, j')"
  shows "\<exists>k'. countNums rec b k r c nums = Some (b, k')"
  using rec
proof (induction nums arbitrary: k)
  case Nil
  then show ?case by simp
next
  case (Cons v nums)
  have ih: "\<exists>k'. countNums rec b j r c nums = Some (b, k')" for j
    by (rule Cons.IH) (simp add: Cons.prems)
  from Cons.prems[of v k] obtain j' where "rec (setCell b r c v) k = Some (setCell b r c v, j')"
    by auto
  with ih[of k] ih[of j'] show ?case by (auto simp: setCell_restore[OF z])
qed

lemma solveCount_frame:
  "wellFormed b \<Longrightarrow> empties b < n \<Longrightarrow> \<exists>k'. solveCount n b k = Some (b, k')"
proof (induction n arbitrary: b k)
  case 0
  then show ?case by simp
next
  case (Suc n)
  show ?case
  proof (cases "findEmpty b")
    case None
    then show ?thesis by simp
  next
    case (Some p)
    obtain r c where p: "p = (r, c)" by (cases p)
    with Some have fe: "findEmpty b = Some (r, c)" by simp
    from findEmpty_Some[OF fe] have rc: "r < 9" "c < 9" and z: "b ! r ! c = 0" by simp_all
    have rec: "\<exists>j'. solveCount n (setCell b r c v) j = Some (setCell b r c v, j')"
      if "v \<in> set [1..9]" for v j
    proof (rule Suc.IH)
      show "wellFormed (setCell b r c v)" by (rule wellFormed_setCell[OF Suc.prems(1)])
      from that have "v \<noteq> 0" by simp
      from empties_setCell[OF Suc.prems(1) rc z this] Suc.prems(2)
      show "empties (setCell b r c v) < n" by simp
    qed
    from countNums_frame[of b r c "[1..9]" "solveCount n", OF z rec]
    show ?thesis by (simp add: fe)
  qed
qed

lemma countNums_bound:
  assumes rec: "\<And>b1 j b2 j'. rec b1 j = Some (b2, j') \<Longrightarrow> j \<le> 1 \<Longrightarrow> j' \<le> 2"
  shows "countNums rec b k r c nums = Some (b', k') \<Longrightarrow> k \<le> 1 \<Longrightarrow> k' \<le> 2"
proof (induction nums arbitrary: b k)
  case Nil
  then show ?case by simp
next
  case (Cons v nums)
  show ?case
  proof (cases "isValid b r c v")
    case False
    with Cons.prems Cons.IH show ?thesis by simp
  next
    case True
    with Cons.prems(1) obtain b1 j where r1: "rec (setCell b r c v) k = Some (b1, j)"
      by (auto split: option.splits)
    from rec[OF r1 Cons.prems(2)] have j2: "j \<le> 2" .
    show ?thesis
    proof (cases "j > 1")
      case True
      with Cons.prems(1) \<open>isValid b r c v\<close> r1 j2 show ?thesis by simp
    next
      case False
      with Cons.prems(1) \<open>isValid b r c v\<close> r1
      have "countNums rec (setCell b1 r c 0) j r c nums = Some (b', k')" by simp
      from Cons.IH[OF this] False show ?thesis by simp
    qed
  qed
qed

lemma solveCount_bound:
  "solveCount n b k = Some (b', k') \<Longrightarrow> k \<le> 1 \<Longrightarrow> k' \<le> 2"
proof (induction n arbitrary: b k b' k')
  case 0
  then show ?case by simp
next
  case (Suc n)
  show ?case
  proof (cases "findEmpty b")
    case None
    with Suc.prems show ?thesis by auto
  next
    case (Some p)
    obtain r c where p: "p = (r, c)" by (cases p)
    with Some Suc.prems(1) have "countNums (solveCount n) b k r c [1..9] = Some (b', k')" by simp
    from countNums_bound[of "solveCount n", OF Suc.IH this Suc.prems(2)] show ?thesis by simp
  qed
qed

lemma tryNums_spec:
  assumes z: "b ! r ! c = 0"
    and rec: "\<And>v. v \<in> set nums \<Longrightarrow> isValid b r c v \<Longrightarrow>
      (completions (setCell b r c v) = {} \<and> rec (setCell b r c v) = Some (False, setCell b r c v))
      \<or> (\<exists>g \<in> completions (setCell b r c v). rec (setCell b r c v) = Some (True, g))"
  shows "((\<forall>v \<in> set nums. isValid b r c v \<longrightarrow> completions (setCell b r c v) = {})
          \<and> tryNums rec b r c nums = Some (False, b))
       \<or> (\<exists>v \<in> set nums. isValid b r c v
             \<and> (\<exists>g \<in> completions (setCell b r c v). tryNums rec b r c nums = Some (True, g)))"
  using rec
proof (induction nums)
  case Nil
  then show ?case by simp
next
  case (Cons v nums)
  let ?none = "\<lambda>ns. \<forall>v \<in> set ns. isValid b r c v \<longrightarrow> completions (setCell b r c v) = {}"
  let ?some = "\<lambda>ns res. \<exists>v \<in> set ns. isValid b r c v
             \<and> (\<exists>g \<in> completions (setCell b r c v). res = Some (True, g))"
  have ih: "(?none nums \<and> tryNums rec b r c nums = Some (False, b)) \<or> ?some nums (tryNums rec b r c nums)"
    by (rule Cons.IH) (simp add: Cons.prems)
  have mono: "?some nums res \<Longrightarrow> ?some (v # nums) res" for res by simp
  show ?case
  proof (cases "isValid b r c v")
    case False
    then have eq: "tryNums rec b r c (v # nums) = tryNums rec b r c nums" by simp
    from ih show ?thesis
    proof
      assume a: "?none nums \<and> tryNums rec b r c nums = Some (False, b)"
      with False have "?none (v # nums)" by simp
      with a eq show ?thesis by simp
    next
      assume "?some nums (tryNums rec b r c nums)"
      then have "?some (v # nums) (tryNums rec b r c (v # nums))" unfolding eq by (rule mono)
      then show ?thesis by (rule disjI2)
    qed
  next
    case True
    have "v \<in> set (v # nums)" by simp
    from Cons.prems[OF this True] show ?thesis
    proof
      assume f: "completions (setCell b r c v) = {} \<and> rec (setCell b r c v) = Some (False, setCell b r c v)"
      with True have eq: "tryNums rec b r c (v # nums) = tryNums rec b r c nums"
        by (simp add: setCell_restore[OF z])
      from ih show ?thesis
      proof
        assume a: "?none nums \<and> tryNums rec b r c nums = Some (False, b)"
        with f have "?none (v # nums)" by simp
        with a eq show ?thesis by simp
      next
        assume "?some nums (tryNums rec b r c nums)"
        then have "?some (v # nums) (tryNums rec b r c (v # nums))" unfolding eq by (rule mono)
        then show ?thesis by (rule disjI2)
      qed
    next
      assume "\<exists>g \<in> completions (setCell b r c v). rec (setCell b r c v) = Some (True, g)"
      then obtain g where g: "g \<in> completions (setCell b r c v)" "rec (setCell b r c v) = Some (True, g)"
        by blast
      from g(2) True have "tryNums rec b r c (v # nums) = Some (True, g)" by simp
      with g(1) True have "?some (v # nums) (tryNums rec b r c (v # nums))" by simp
      then show ?thesis by (rule disjI2)
    qed
  qed
qed

lemma solveFuel_spec:
  "consistent b \<Longrightarrow> empties b < n \<Longrightarrow>
   (completions b = {} \<and> solveFuel n b = Some (False, b))
   \<or> (\<exists>g \<in> completions b. solveFuel n b = Some (True, g))"
proof (induction n arbitrary: b)
  case 0
  then show ?case by simp
next
  case (Suc n)
  note wf = consistentD(1)[OF Suc.prems(1)]
  show ?case
  proof (cases "findEmpty b")
    case None
    with completions_full[OF Suc.prems(1)] show ?thesis by simp
  next
    case (Some p)
    obtain r c where p: "p = (r, c)" by (cases p)
    with Some have fe: "findEmpty b = Some (r, c)" by simp
    from findEmpty_Some[OF fe] have rc: "r < 9" "c < 9" and z: "b ! r ! c = 0" by simp_all
    have rec: "(completions (setCell b r c v) = {} \<and> solveFuel n (setCell b r c v) = Some (False, setCell b r c v))
      \<or> (\<exists>g \<in> completions (setCell b r c v). solveFuel n (setCell b r c v) = Some (True, g))"
      if "v \<in> set [1..9]" "isValid b r c v" for v
    proof (rule Suc.IH)
      from that(1) have v: "1 \<le> v" "v \<le> 9" by simp_all
      show "consistent (setCell b r c v)"
        by (rule consistent_setCell[OF Suc.prems(1) rc z that(2) v])
      from v have "v \<noteq> 0" by simp
      from empties_setCell[OF wf rc z this] Suc.prems(2) show "empties (setCell b r c v) < n" by simp
    qed
    have eq: "solveFuel (Suc n) b = tryNums (solveFuel n) b r c [1..9]" by (simp add: fe)
    have cb: "completions b = (\<Union>v \<in> {v \<in> set [1..9]. isValid b r c v}. completions (setCell b r c v))"
      using completions_branch[OF wf fe] by simp
    from tryNums_spec[of b r c "[1..9]" "solveFuel n", OF z rec]
    show ?thesis
    proof
      assume a: "(\<forall>v \<in> set [1..9]. isValid b r c v \<longrightarrow> completions (setCell b r c v) = {})
          \<and> tryNums (solveFuel n) b r c [1..9] = Some (False, b)"
      then have "completions b = {}" unfolding cb by blast
      with a eq show ?thesis by simp
    next
      assume "\<exists>v \<in> set [1..9]. isValid b r c v
             \<and> (\<exists>g \<in> completions (setCell b r c v). tryNums (solveFuel n) b r c [1..9] = Some (True, g))"
      then obtain v g where v: "v \<in> set [1..9]" "isValid b r c v" "g \<in> completions (setCell b r c v)"
        "tryNums (solveFuel n) b r c [1..9] = Some (True, g)" by blast
      from v(1-3) have "g \<in> completions b" unfolding cb by blast
      with v(4) eq show ?thesis by auto
    qed
  qed
qed

section \<open>Solution counter: frame and cap\<close>

lemma sampleGridA_valid: "completeValid sampleGridA"
  by code_simp

lemma sampleGridB_valid: "completeValid sampleGridB"
  by code_simp

lemma wellFormed_empty: "wellFormed createEmptyBoard"
  by (simp add: wellFormed_def createEmptyBoard_def list_all_iff)

lemma empty_cells: "r < 9 \<Longrightarrow> c < 9 \<Longrightarrow> createEmptyBoard ! r ! c = 0"
  by (simp add: createEmptyBoard_def)

lemma consistent_empty: "consistent createEmptyBoard"
  by (simp add: consistent_def wellFormed_empty empty_cells)

lemma countSolutions_consistent:
  assumes "consistent b"
  shows "countSolutions b = Some (b, min 2 (card (completions b)))"
proof -
  have "empties b < 82" using empties_le[of b] by simp
  from solveCount_spec[OF assms this, of 0] show ?thesis by (simp add: countSolutions_def)
qed

lemma empty_two_completions: "2 \<le> card (completions createEmptyBoard)"
proof -
  have "agrees g createEmptyBoard" for g by (simp add: agrees_iff empty_cells)
  then have sub: "{sampleGridA, sampleGridB} \<subseteq> completions createEmptyBoard"
    by (simp add: completions_def sampleGridA_valid sampleGridB_valid)
  have "sampleGridA \<noteq> sampleGridB" by (simp add: sampleGridA_def sampleGridB_def)
  then have "card {sampleGridA, sampleGridB} = 2" by simp
  with card_mono[OF finite_completions sub] show ?thesis by simp
qed

text \<open>
  C9. For every 9x9 grid \<open>g\<close>, \<open>countSolutions\<close> returns, and the board it leaves is \<open>g\<close>,
  cell for cell: every trial placement is undone, also on the exit taken once the count
  exceeds 1.
\<close>

theorem countSolutions_restores:
  assumes "wellFormed g"
  shows "\<exists>n. countSolutions g = Some (g, n)"
proof -
  have "empties g < 82" using empties_le[of g] by simp
  from solveCount_frame[OF assms this] show ?thesis by (simp add: countSolutions_def)
qed

theorem countSolutions_restores_witness:
  "wellFormed (setCell createEmptyBoard 0 0 5)
   \<and> (\<exists>n. countSolutions (setCell createEmptyBoard 0 0 5) = Some (setCell createEmptyBoard 0 0 5, n))"
proof -
  have h: "wellFormed (setCell createEmptyBoard 0 0 5)"
    by (rule wellFormed_setCell[OF wellFormed_empty])
  from countSolutions_restores[OF h] h show ?thesis by simp
qed

text \<open>
  C6. On the empty 9x9 grid \<open>countSolutions\<close> returns exactly 2, and on every 9x9 grid it
  returns a number that is at most 2.
\<close>

theorem countSolutions_cap:
  "countSolutions createEmptyBoard = Some (createEmptyBoard, 2)
   \<and> (\<forall>g. wellFormed g \<longrightarrow> (\<exists>n\<le>2. countSolutions g = Some (g, n)))"
proof
  from empty_two_completions have "min 2 (card (completions createEmptyBoard)) = 2" by simp
  with countSolutions_consistent[OF consistent_empty]
  show "countSolutions createEmptyBoard = Some (createEmptyBoard, 2)" by simp
next
  show "\<forall>g. wellFormed g \<longrightarrow> (\<exists>n\<le>2. countSolutions g = Some (g, n))"
  proof (intro allI impI)
    fix g :: board assume "wellFormed g"
    then have "empties g < 82" "wellFormed g" using empties_le[of g] by simp_all
    from solveCount_frame[OF this(2,1), of 0] obtain n where n: "solveCount 82 g 0 = Some (g, n)" by blast
    from solveCount_bound[OF n] have "n \<le> 2" by simp
    with n show "\<exists>n\<le>2. countSolutions g = Some (g, n)" by (simp add: countSolutions_def)
  qed
qed

theorem countSolutions_cap_witness:
  "wellFormed sampleGridA \<and> countSolutions sampleGridA = Some (sampleGridA, 1)
   \<and> countSolutions createEmptyBoard = Some (createEmptyBoard, 2)"
proof -
  have wf: "wellFormed sampleGridA" using sampleGridA_valid by (simp add: completeValid_def)
  from countSolutions_cap wf obtain n where n: "n \<le> 2" "countSolutions sampleGridA = Some (sampleGridA, n)"
    by blast
  have full: "findEmpty sampleGridA = None"
    using completeValidD(2)[OF sampleGridA_valid] by (fastforce simp: findEmpty_None)
  from completions_full[OF completeValid_consistent[OF sampleGridA_valid] full]
    countSolutions_consistent[OF completeValid_consistent[OF sampleGridA_valid]]
  have "countSolutions sampleGridA = Some (sampleGridA, 1)" by simp
  with wf countSolutions_cap show ?thesis by simp
qed

section \<open>Excavator\<close>

lemma randomInt_Some:
  "randomInt k rs = Some (j, rs') \<Longrightarrow> 0 < k \<Longrightarrow> j < k \<and> length rs = Suc (length rs')"
  by (auto simp: randomInt_def split: list.splits)

lemma randomInt_total: "rs \<noteq> [] \<Longrightarrow> \<exists>j rs'. randomInt k rs = Some (j, rs')"
  by (cases rs) (simp_all add: randomInt_def)

lemma shuffleFrom_perm:
  "shuffleFrom k xs rs = Some (ys, rs') \<Longrightarrow> k < length xs \<Longrightarrow> mset ys = mset xs"
proof (induction k arbitrary: xs rs)
  case 0
  then show ?case by simp
next
  case (Suc k)
  from Suc.prems(1) obtain j rs1 where j: "randomInt (Suc k + 1) rs = Some (j, rs1)"
    and rest: "shuffleFrom k (xs[Suc k := xs ! j, j := xs ! Suc k]) rs1 = Some (ys, rs')"
    by (auto split: option.splits)
  from randomInt_Some[OF j] have "j < Suc k + 1" by simp
  with Suc.prems(2) have jl: "j < length xs" by simp
  have "mset ys = mset (xs[Suc k := xs ! j, j := xs ! Suc k])"
    by (rule Suc.IH[OF rest]) (use Suc.prems(2) in simp)
  also have "\<dots> = mset xs" by (rule mset_swap[OF jl Suc.prems(2)])
  finally show ?case .
qed

lemma shuffleFrom_total:
  "k \<le> length rs \<Longrightarrow> \<exists>ys rs'. shuffleFrom k xs rs = Some (ys, rs') \<and> length rs = length rs' + k"
proof (induction k arbitrary: xs rs)
  case 0
  then show ?case by simp
next
  case (Suc k)
  then obtain x rs1 where rs: "rs = x # rs1" by (cases rs) auto
  with Suc.prems have "k \<le> length rs1" by simp
  from Suc.IH[OF this] rs show ?case by (simp add: randomInt_def)
qed

lemma shuffleArray_positions:
  assumes "shuffleArray allCells rs = Some (ps, rs')"
  shows "distinct ps \<and> set ps = set allCells"
proof -
  from assms have "mset ps = mset allCells"
    unfolding shuffleArray_def by (rule shuffleFrom_perm) (simp add: length_allCells)
  then show ?thesis
    by (metis distinct_allCells mset_eq_setD mset_eq_imp_distinct_iff)
qed

lemma shuffleArray_total:
  "length xs - 1 \<le> length rs \<Longrightarrow> \<exists>ys rs'. shuffleArray xs rs = Some (ys, rs')"
  unfolding shuffleArray_def using shuffleFrom_total by blast

lemma pokeLoop_cases:
  assumes "pokeLoop pz h t ((r, c) # ps) = Some res"
  obtains (stop) "t \<le> h" "res = (pz, h, (r, c) # ps)"
    | (keep) copy where "h < t" "countSolutions (setCell pz r c 0) = Some (copy, 1)"
        "pokeLoop (setCell pz r c 0) (h + 1) t ps = Some res"
    | (restore) copy n where "h < t" "countSolutions (setCell pz r c 0) = Some (copy, n)" "n \<noteq> 1"
        "pokeLoop pz h t ps = Some res"
proof (cases "t \<le> h")
  case True
  with assms stop show ?thesis by simp
next
  case False
  with assms obtain copy n where cs: "countSolutions (setCell pz r c 0) = Some (copy, n)"
    by (auto simp: Let_def split: option.splits)
  have rst: "setCell (setCell pz r c 0) r c (pz ! r ! c) = pz"
    by (simp add: setCell_setCell setCell_same)
  show ?thesis
  proof (cases "n = 1")
    case True
    with assms False cs keep show ?thesis by (simp add: Let_def)
  next
    case ne: False
    with assms False cs have "pokeLoop pz h t ps = Some res" by (simp add: Let_def rst)
    with False cs ne restore show ?thesis by simp
  qed
qed

lemma agrees_dig:
  assumes "wellFormed pz" "agrees s pz" "r < 9" "c < 9"
  shows "agrees s (setCell pz r c 0)"
  using assms(2) unfolding agrees_iff by (auto simp: nth_setCell[OF assms(1,3,4)])

lemma pokeLoop_agrees:
  "pokeLoop pz h t ps = Some (pz', h', rest) \<Longrightarrow> wellFormed pz \<Longrightarrow> agrees s pz \<Longrightarrow>
   set ps \<subseteq> set allCells \<Longrightarrow> wellFormed pz' \<and> agrees s pz'"
proof (induction ps arbitrary: pz h)
  case Nil
  then show ?case by simp
next
  case (Cons p ps)
  obtain r c where p: "p = (r, c)" by (cases p)
  with Cons.prems(4) have rc: "r < 9" "c < 9" and sub: "set ps \<subseteq> set allCells"
    by (simp_all add: set_allCells)
  from Cons.prems(1)[unfolded p] show ?case
  proof (cases rule: pokeLoop_cases)
    case stop
    with Cons.prems show ?thesis by simp
  next
    case (keep copy)
    from Cons.IH[OF keep(3) wellFormed_setCell[OF Cons.prems(2)] agrees_dig[OF Cons.prems(2,3) rc] sub]
    show ?thesis .
  next
    case (restore copy n)
    from Cons.IH[OF restore(4) Cons.prems(2,3) sub] show ?thesis .
  qed
qed

lemma agrees_consistent:
  assumes "completeValid s" "wellFormed pz" "agrees s pz"
  shows "consistent pz"
  unfolding consistent_def
proof (intro conjI allI impI)
  show "wellFormed pz" by fact
next
  fix r c :: nat assume rc: "r < 9" "c < 9"
  from assms(3) rc have "pz ! r ! c = 0 \<or> s ! r ! c = pz ! r ! c" by (simp add: agrees_iff)
  with completeValidD(2)[OF assms(1) rc] show "0 \<le> pz ! r ! c" "pz ! r ! c \<le> 9" by auto
next
  fix r c r' c' :: nat
  assume b: "r < 9" "c < 9" "r' < 9" "c' < 9"
    and h: "(r, c) \<noteq> (r', c') \<and> sameUnit r c r' c' \<and> pz ! r ! c \<noteq> 0"
  from assms(3) b have e: "pz ! r ! c = 0 \<or> s ! r ! c = pz ! r ! c"
    "pz ! r' ! c' = 0 \<or> s ! r' ! c' = pz ! r' ! c'" by (simp_all add: agrees_iff)
  from h completeValidD(3)[OF assms(1) b] have "s ! r ! c \<noteq> s ! r' ! c'" by blast
  with e h show "pz ! r ! c \<noteq> pz ! r' ! c'" by auto
qed

lemma pokeLoop_unique:
  assumes s: "completeValid s"
  shows "pokeLoop pz h t ps = Some (pz', h', rest) \<Longrightarrow> wellFormed pz \<Longrightarrow> agrees s pz \<Longrightarrow>
   completions pz = {s} \<Longrightarrow> set ps \<subseteq> set allCells \<Longrightarrow> completions pz' = {s}"
proof (induction ps arbitrary: pz h)
  case Nil
  then show ?case by simp
next
  case (Cons p ps)
  obtain r c where p: "p = (r, c)" by (cases p)
  with Cons.prems(5) have rc: "r < 9" "c < 9" and sub: "set ps \<subseteq> set allCells"
    by (simp_all add: set_allCells)
  from Cons.prems(1)[unfolded p] show ?case
  proof (cases rule: pokeLoop_cases)
    case stop
    with Cons.prems show ?thesis by simp
  next
    case (keep copy)
    let ?dug = "setCell pz r c 0"
    note wfd = wellFormed_setCell[OF Cons.prems(2), of r c 0]
    note agd = agrees_dig[OF Cons.prems(2,3) rc]
    from countSolutions_consistent[OF agrees_consistent[OF s wfd agd]] keep(2)
    have "min 2 (card (completions ?dug)) = 1" by simp
    then have c1: "card (completions ?dug) = 1" by simp
    have "s \<in> completions ?dug" using s agd by (simp add: completions_def)
    with c1 have "completions ?dug = {s}" by (metis card_1_singletonE singletonD)
    from Cons.IH[OF keep(3) wfd agd this sub] show ?thesis .
  next
    case (restore copy n)
    from Cons.IH[OF restore(4) Cons.prems(2,3,4) sub] show ?thesis .
  qed
qed

lemma pokeLoop_total:
  "wellFormed pz \<Longrightarrow> \<exists>res. pokeLoop pz h t ps = Some res"
proof (induction ps arbitrary: pz h)
  case Nil
  then show ?case by simp
next
  case (Cons p ps)
  obtain r c where p: "p = (r, c)" by (cases p)
  note wfd = wellFormed_setCell[OF Cons.prems, of r c 0]
  from countSolutions_restores[OF wfd] obtain n
    where n: "countSolutions (setCell pz r c 0) = Some (setCell pz r c 0, n)" by blast
  have rst: "setCell (setCell pz r c 0) r c (pz ! r ! c) = pz"
    by (simp add: setCell_setCell setCell_same)
  from Cons.IH[OF wfd, of "h + 1"] Cons.IH[OF Cons.prems, of h] n
  show ?case unfolding p by (simp add: Let_def rst)
qed

lemma clues_dig:
  assumes "wellFormed b" "r < 9" "c < 9" "b ! r ! c \<noteq> 0"
  shows "Suc (clues (setCell b r c 0)) = clues b"
proof -
  let ?P = "\<lambda>(r', c'). setCell b r c 0 ! r' ! c' \<noteq> 0" and ?Q = "\<lambda>(r', c'). b ! r' ! c' \<noteq> 0"
  have eq: "set (filter ?Q allCells) = insert (r, c) (set (filter ?P allCells))"
    using assms by (auto simp: set_allCells nth_setCell split: if_splits)
  have notin: "(r, c) \<notin> set (filter ?P allCells)"
    using assms by (simp add: set_allCells nth_setCell)
  have "card (set (filter ?Q allCells)) = Suc (card (set (filter ?P allCells)))"
    unfolding eq using notin by simp
  then show ?thesis
    unfolding clues_def
    using distinct_card[OF distinct_filter[OF distinct_allCells, of ?P]]
      distinct_card[OF distinct_filter[OF distinct_allCells, of ?Q]] by simp
qed

lemma clues_full:
  assumes "completeValid g"
  shows "clues g = 81"
proof -
  have "filter (\<lambda>(r, c). g ! r ! c \<noteq> 0) allCells = allCells"
    using completeValidD(2)[OF assms] by (fastforce simp: filter_id_conv set_allCells)
  then show ?thesis by (simp add: clues_def length_allCells)
qed

lemma pokeLoop_count:
  "pokeLoop pz h t ps = Some (pz', h', rest) \<Longrightarrow> wellFormed pz \<Longrightarrow> distinct ps \<Longrightarrow>
   set ps \<subseteq> set allCells \<Longrightarrow> (\<forall>(r, c) \<in> set ps. pz ! r ! c \<noteq> 0) \<Longrightarrow> h \<le> t \<Longrightarrow>
   clues pz' + h' = clues pz + h \<and> h' \<le> t \<and> (rest = [] \<or> h' = t)"
proof (induction ps arbitrary: pz h)
  case Nil
  then show ?case by simp
next
  case (Cons p ps)
  obtain r c where p: "p = (r, c)" by (cases p)
  with Cons.prems(4) have rc: "r < 9" "c < 9" and sub: "set ps \<subseteq> set allCells"
    by (simp_all add: set_allCells)
  from Cons.prems(3) p have notin: "(r, c) \<notin> set ps" and dist: "distinct ps" by simp_all
  from Cons.prems(5) p have nz: "pz ! r ! c \<noteq> 0" and nzs: "\<forall>(r, c) \<in> set ps. pz ! r ! c \<noteq> 0"
    by simp_all
  from Cons.prems(1)[unfolded p] show ?case
  proof (cases rule: pokeLoop_cases)
    case stop
    with Cons.prems(6) show ?thesis by simp
  next
    case (keep copy)
    have nzd: "\<forall>(r', c') \<in> set ps. setCell pz r c 0 ! r' ! c' \<noteq> 0"
    proof (clarify)
      fix r' c' assume m: "(r', c') \<in> set ps" and e: "setCell pz r c 0 ! r' ! c' = 0"
      from m sub have b: "r' < 9" "c' < 9" by (auto simp: set_allCells)
      from m notin have "\<not> (r' = r \<and> c' = c)" by auto
      with e nzs m show False by (auto simp: nth_setCell[OF Cons.prems(2) rc b])
    qed
    from keep(1) have "h + 1 \<le> t" by simp
    from Cons.IH[OF keep(3) wellFormed_setCell[OF Cons.prems(2)] dist sub nzd this]
      clues_dig[OF Cons.prems(2) rc nz]
    show ?thesis by simp
  next
    case (restore copy n)
    from Cons.IH[OF restore(4) Cons.prems(2) dist sub nzs Cons.prems(6)] show ?thesis .
  qed
qed

lemma clueRange_cases:
  "clueRange tag = (35, 40) \<or> clueRange tag = (30, 34) \<or> clueRange tag = (25, 29)"
  by (simp add: clueRange_def)

lemma clueRange_unrecognized:
  "tag \<noteq> ''easy'' \<Longrightarrow> tag \<noteq> ''medium'' \<Longrightarrow> tag \<noteq> ''hard'' \<Longrightarrow> clueRange tag = (30, 34)"
  by (simp add: clueRange_def)

lemma pokeHolesRun_Some:
  assumes "pokeHolesRun board tag rs = Some ((pz, h, rest), t, rs')"
  obtains lo hi k rs1 ps where "clueRange tag = (lo, hi)" "randomInt (hi - lo + 1) rs = Some (k, rs1)"
    "t = 81 - (k + lo)" "shuffleArray allCells rs1 = Some (ps, rs')"
    "pokeLoop board 0 t ps = Some (pz, h, rest)"
proof -
  obtain lo hi where cr: "clueRange tag = (lo, hi)" by (cases "clueRange tag")
  with assms obtain k rs1 where ri: "randomInt (hi - lo + 1) rs = Some (k, rs1)"
    unfolding pokeHolesRun_def by (auto split: option.splits)
  with assms cr obtain ps rs2 where sh: "shuffleArray allCells rs1 = Some (ps, rs2)"
    unfolding pokeHolesRun_def allCells_def by (auto simp: Let_def split: option.splits)
  with assms cr ri have "pokeLoop board 0 (81 - (k + lo)) ps = Some (pz, h, rest)"
    "t = 81 - (k + lo)" "rs2 = rs'"
    unfolding pokeHolesRun_def allCells_def by (auto simp: Let_def split: option.splits)
  with cr ri sh that show ?thesis by blast
qed

lemma pokeHoles_run:
  "pokeHolesRun board tag rs = Some ((pz, h, rest), t, rs') \<Longrightarrow> pokeHoles board tag rs = Some (pz, rs')"
  by (simp add: pokeHoles_def)

lemma pokeHoles_Some:
  assumes "pokeHoles board tag rs = Some (pz, rs')"
  obtains h rest t where "pokeHolesRun board tag rs = Some ((pz, h, rest), t, rs')"
  using assms unfolding pokeHoles_def by auto

lemma pokeHolesRun_total:
  assumes "wellFormed board" "81 \<le> length rs"
  shows "\<exists>pz h rest t rs'. pokeHolesRun board tag rs = Some ((pz, h, rest), t, rs')"
proof -
  obtain lo hi where cr: "clueRange tag = (lo, hi)" by (cases "clueRange tag")
  from assms(2) obtain x rs1 where rs: "rs = x # rs1" by (cases rs) auto
  then have ri: "randomInt (hi - lo + 1) rs = Some (x mod (hi - lo + 1), rs1)"
    by (simp add: randomInt_def)
  from rs assms(2) have "length allCells - 1 \<le> length rs1" by (simp add: length_allCells)
  from shuffleArray_total[OF this] obtain ps rs2 where sh: "shuffleArray allCells rs1 = Some (ps, rs2)"
    by blast
  from pokeLoop_total[OF assms(1)] obtain res
    where "pokeLoop board 0 (81 - (x mod (hi - lo + 1) + lo)) ps = Some res" by blast
  with cr ri sh show ?thesis
    unfolding pokeHolesRun_def allCells_def[symmetric] by (cases res) (auto simp: Let_def)
qed

lemma agrees_refl: "agrees b b"
  by (simp add: agrees_iff)

lemma completions_dig_mono:
  assumes wf: "wellFormed pz" and wf': "wellFormed pz'" and ag: "agrees pz pz'"
    and rc: "r < 9" "c < 9"
  shows "completions (setCell pz r c 0) \<subseteq> completions (setCell pz' r c 0)"
proof
  fix g assume "g \<in> completions (setCell pz r c 0)"
  then have cv: "completeValid g" and a: "agrees g (setCell pz r c 0)"
    by (simp_all add: completions_def)
  have "agrees g (setCell pz' r c 0)"
    unfolding agrees_iff
  proof (intro allI impI)
    fix r' c' :: nat assume b: "r' < 9" "c' < 9"
    show "setCell pz' r c 0 ! r' ! c' = 0 \<or> g ! r' ! c' = setCell pz' r c 0 ! r' ! c'"
    proof (cases "r' = r \<and> c' = c")
      case True
      then show ?thesis by (simp add: nth_setCell[OF wf' rc rc])
    next
      case False
      from a b have "setCell pz r c 0 ! r' ! c' = 0 \<or> g ! r' ! c' = setCell pz r c 0 ! r' ! c'"
        by (simp add: agrees_iff)
      with False have 1: "pz ! r' ! c' = 0 \<or> g ! r' ! c' = pz ! r' ! c'"
        by (auto simp: nth_setCell[OF wf rc b] split: if_splits)
      from ag b have 2: "pz' ! r' ! c' = 0 \<or> pz ! r' ! c' = pz' ! r' ! c'"
        by (simp add: agrees_iff)
      from 1 2 False show ?thesis by (auto simp: nth_setCell[OF wf' rc b])
    qed
  qed
  with cv show "g \<in> completions (setCell pz' r c 0)" by (simp add: completions_def)
qed

lemma pokeLoop_visited:
  assumes s: "completeValid s"
  shows "pokeLoop pz h t ps = Some (pz', h', rest) \<Longrightarrow> wellFormed pz \<Longrightarrow> agrees s pz \<Longrightarrow>
   set ps \<subseteq> set allCells \<Longrightarrow>
   \<forall>(r, c) \<in> set ps. (r, c) \<in> set rest \<or> pz' ! r ! c = 0
      \<or> 2 \<le> card (completions (setCell pz' r c 0))"
proof (induction ps arbitrary: pz h)
  case Nil
  then show ?case by simp
next
  case (Cons p ps)
  obtain r c where p: "p = (r, c)" by (cases p)
  with Cons.prems(4) have rc: "r < 9" "c < 9" and sub: "set ps \<subseteq> set allCells"
    by (simp_all add: set_allCells)
  from Cons.prems(1)[unfolded p] show ?case
  proof (cases rule: pokeLoop_cases)
    case stop
    then show ?thesis unfolding p by auto
  next
    case (keep copy)
    let ?dug = "setCell pz r c 0"
    note wfd = wellFormed_setCell[OF Cons.prems(2), of r c 0]
    note agd = agrees_dig[OF Cons.prems(2,3) rc]
    from Cons.IH[OF keep(3) wfd agd sub]
    have rest: "\<forall>(r, c) \<in> set ps. (r, c) \<in> set rest \<or> pz' ! r ! c = 0
        \<or> 2 \<le> card (completions (setCell pz' r c 0))" .
    from pokeLoop_agrees[OF keep(3) wfd agrees_refl sub] have "agrees ?dug pz'" by simp
    with rc have "pz' ! r ! c = 0 \<or> ?dug ! r ! c = pz' ! r ! c" by (simp add: agrees_iff)
    then have "pz' ! r ! c = 0" by (auto simp: nth_setCell[OF Cons.prems(2) rc rc])
    with rest show ?thesis unfolding p by simp
  next
    case (restore copy n)
    let ?dug = "setCell pz r c 0"
    note wfd = wellFormed_setCell[OF Cons.prems(2), of r c 0]
    note agd = agrees_dig[OF Cons.prems(2,3) rc]
    from Cons.IH[OF restore(4) Cons.prems(2,3) sub]
    have rest: "\<forall>(r, c) \<in> set ps. (r, c) \<in> set rest \<or> pz' ! r ! c = 0
        \<or> 2 \<le> card (completions (setCell pz' r c 0))" .
    from countSolutions_consistent[OF agrees_consistent[OF s wfd agd]] restore(2)
    have n: "n = min 2 (card (completions ?dug))" by simp
    have "s \<in> completions ?dug" using s agd by (simp add: completions_def)
    then have "card (completions ?dug) \<noteq> 0" using finite_completions[of ?dug] by auto
    with n restore(3) have two: "2 \<le> card (completions ?dug)" by (simp add: min_def split: if_splits)
    from pokeLoop_agrees[OF restore(4) Cons.prems(2) agrees_refl sub]
    have wf': "wellFormed pz'" and ag': "agrees pz pz'" by simp_all
    from card_mono[OF finite_completions completions_dig_mono[OF Cons.prems(2) wf' ag' rc]] two
    have "2 \<le> card (completions (setCell pz' r c 0))" by simp
    with rest show ?thesis unfolding p by simp
  qed
qed

text \<open>
  C7. For every complete valid input grid and every difficulty tag (an unrecognized tag has
  the medium range 30..34), the puzzle that \<open>pokeHoles\<close> returns has 81 minus \<open>holesPoked\<close>
  non-zero cells, and every position the loop has visited (every position that is not in the
  unvisited \<open>rest\<close>) is a hole or holds a clue that was tried and put back: with that clue
  removed from the returned puzzle, \<open>countSolutions\<close> finds two completions. The number of
  non-zero cells lies in the tier's inclusive range; or it is above the upper bound, and then
  the loop has run through all 81 shuffled positions without reaching the target number of
  holes, so that none of the remaining clues can be dug.
\<close>

theorem pokeHoles_clue_range:
  assumes "completeValid board"
    and "pokeHolesRun board tag rs = Some ((pz, holesPoked, rest), holesToPoke, rs')"
  shows "pokeHoles board tag rs = Some (pz, rs')
       \<and> clues pz + holesPoked = 81
       \<and> (\<forall>r<9. \<forall>c<9. (r, c) \<notin> set rest \<longrightarrow> pz ! r ! c \<noteq> 0 \<longrightarrow>
             countSolutions (setCell pz r c 0) = Some (setCell pz r c 0, 2))
       \<and> (case clueRange tag of (lo, hi) \<Rightarrow>
             (lo \<le> clues pz \<and> clues pz \<le> hi)
             \<or> (hi < clues pz \<and> rest = [] \<and> holesPoked < holesToPoke
                \<and> (\<forall>r<9. \<forall>c<9. pz ! r ! c \<noteq> 0 \<longrightarrow>
                      countSolutions (setCell pz r c 0) = Some (setCell pz r c 0, 2))))
       \<and> clueRange tag = (if tag = ''easy'' then (35, 40) else if tag = ''hard'' then (25, 29) else (30, 34))"
proof -
  from assms(2) obtain lo hi k rs1 ps where cr: "clueRange tag = (lo, hi)"
    and ri: "randomInt (hi - lo + 1) rs = Some (k, rs1)"
    and t: "holesToPoke = 81 - (k + lo)"
    and sh: "shuffleArray allCells rs1 = Some (ps, rs')"
    and pl: "pokeLoop board 0 holesToPoke ps = Some (pz, holesPoked, rest)"
    by (rule pokeHolesRun_Some)
  note wf = completeValidD(1)[OF assms(1)]
  from shuffleArray_positions[OF sh] have dist: "distinct ps" and sub: "set ps \<subseteq> set allCells"
    and all: "set ps = set allCells" by simp_all
  have nz: "\<forall>(r, c) \<in> set ps. board ! r ! c \<noteq> 0"
    using sub completeValidD(2)[OF assms(1)] by (fastforce simp: set_allCells)
  from pokeLoop_count[OF pl wf dist sub nz] clues_full[OF assms(1)]
  have cnt: "clues pz + holesPoked = 81" "holesPoked \<le> holesToPoke" "rest = [] \<or> holesPoked = holesToPoke"
    by simp_all
  from pokeLoop_agrees[OF pl wf agrees_refl sub] have wfp: "wellFormed pz" and agp: "agrees board pz"
    by simp_all
  have visited: "\<forall>r<9. \<forall>c<9. (r, c) \<notin> set rest \<longrightarrow> pz ! r ! c \<noteq> 0 \<longrightarrow>
      countSolutions (setCell pz r c 0) = Some (setCell pz r c 0, 2)"
  proof (intro allI impI)
    fix r c :: nat assume rc: "r < 9" "c < 9" and nr: "(r, c) \<notin> set rest" and ne: "pz ! r ! c \<noteq> 0"
    from rc all have "(r, c) \<in> set ps" by (simp add: set_allCells)
    with pokeLoop_visited[OF assms(1) pl wf agrees_refl sub] ne nr
    have two: "2 \<le> card (completions (setCell pz r c 0))" by auto
    have "consistent (setCell pz r c 0)"
      by (rule agrees_consistent[OF assms(1) wellFormed_setCell[OF wfp] agrees_dig[OF wfp agp rc]])
    from countSolutions_consistent[OF this] two
    show "countSolutions (setCell pz r c 0) = Some (setCell pz r c 0, 2)" by simp
  qed
  then have minimal: "\<forall>r<9. \<forall>c<9. pz ! r ! c \<noteq> 0 \<longrightarrow>
      countSolutions (setCell pz r c 0) = Some (setCell pz r c 0, 2)" if "rest = []"
    using that by simp
  from randomInt_Some[OF ri] have k: "k < hi - lo + 1" by simp
  from clueRange_cases[of tag] cr have "lo \<le> hi \<and> hi \<le> 81" by auto
  with k t cnt have "(lo \<le> clues pz \<and> clues pz \<le> hi)
      \<or> (hi < clues pz \<and> rest = [] \<and> holesPoked < holesToPoke)" by auto
  with minimal have "(lo \<le> clues pz \<and> clues pz \<le> hi)
      \<or> (hi < clues pz \<and> rest = [] \<and> holesPoked < holesToPoke
          \<and> (\<forall>r<9. \<forall>c<9. pz ! r ! c \<noteq> 0 \<longrightarrow>
                      countSolutions (setCell pz r c 0) = Some (setCell pz r c 0, 2)))" by blast
  then have a: "case clueRange tag of (lo, hi) \<Rightarrow>
             (lo \<le> clues pz \<and> clues pz \<le> hi)
             \<or> (hi < clues pz \<and> rest = [] \<and> holesPoked < holesToPoke
                \<and> (\<forall>r<9. \<forall>c<9. pz ! r ! c \<noteq> 0 \<longrightarrow>
                      countSolutions (setCell pz r c 0) = Some (setCell pz r c 0, 2)))"
    by (simp only: cr prod.case)
  have b: "clueRange tag = (if tag = ''easy'' then (35, 40) else if tag = ''hard'' then (25, 29) else (30, 34))"
    by (simp add: clueRange_def)
  from pokeHoles_run[OF assms(2)] cnt(1) visited a b show ?thesis by (intro conjI)
qed

theorem pokeHoles_clue_range_witness:
  "completeValid sampleGridA
   \<and> (\<exists>pz holesPoked rest holesToPoke rs'.
        pokeHolesRun sampleGridA ''easy'' (replicate 81 0) = Some ((pz, holesPoked, rest), holesToPoke, rs')
        \<and> pokeHoles sampleGridA ''easy'' (replicate 81 0) = Some (pz, rs')
        \<and> clues pz + holesPoked = 81
        \<and> ((35 \<le> clues pz \<and> clues pz \<le> 40) \<or> (40 < clues pz \<and> rest = [] \<and> holesPoked < holesToPoke)))"
proof -
  have wf: "wellFormed sampleGridA" using sampleGridA_valid by (simp add: completeValid_def)
  from pokeHolesRun_total[OF wf, of "replicate 81 0" "''easy''"]
  obtain pz h rest t rs' where run:
    "pokeHolesRun sampleGridA ''easy'' (replicate 81 0) = Some ((pz, h, rest), t, rs')" by auto
  from pokeHoles_clue_range[OF sampleGridA_valid run] run sampleGridA_valid
  show ?thesis by (auto simp: clueRange_def)
qed

section \<open>Seeding and generation\<close>

lemma isSafeInBox_iff:
  "isSafeInBox b row col num = (\<not> (\<exists>i<3. \<exists>j<3. b ! (row + i) ! (col + j) = num))"
  by (simp add: isSafeInBox_def list_ex_upt)

lemma drawSafe_Some:
  "drawSafe b row col rs = Some (num, rs') \<Longrightarrow>
   isSafeInBox b row col num \<and> 1 \<le> num \<and> num \<le> 9 \<and> length rs' < length rs"
proof (induction rs)
  case Nil
  then show ?case by simp
next
  case (Cons x rs)
  show ?case
  proof (cases "isSafeInBox b row col (int (x mod 9) + 1)")
    case True
    with Cons.prems have "num = int (x mod 9) + 1" "rs' = rs" by (simp_all add: Let_def)
    with True show ?thesis by simp
  next
    case False
    with Cons.prems have "drawSafe b row col rs = Some (num, rs')" by (simp add: Let_def)
    from Cons.IH[OF this] show ?thesis by simp
  qed
qed

lemma diag_cell:
  fixes orig i :: nat
  assumes "orig \<in> {0, 3, 6}" "i < 3"
  shows "orig + i < 9" "(orig + i) div 3 = orig div 3"
  using assms by auto

lemma in_diag_box:
  fixes orig r' :: nat
  assumes "orig \<in> {0, 3, 6}" "r' < 9" "r' div 3 = orig div 3"
  shows "\<exists>i<3. r' = orig + i"
proof -
  have "r' = r' div 3 * 3 + r' mod 3" by simp
  also have "r' div 3 * 3 = orig" using assms(1,3) by auto
  finally have "r' = orig + r' mod 3" .
  then show ?thesis by (intro exI[of _ "r' mod 3"]) simp
qed

lemma seedInv_step:
  assumes inv: "seedInv b" and o: "orig \<in> {0, 3, 6}" and ij: "i < 3" "j < 3"
    and safe: "isSafeInBox b orig orig num" and num: "1 \<le> num" "num \<le> 9"
  shows "seedInv (setCell b (orig + i) (orig + j) num)"
proof -
  let ?r = "orig + i" and ?c = "orig + j"
  from inv have con: "consistent b" and off: "\<And>r c. r < 9 \<Longrightarrow> c < 9 \<Longrightarrow> r div 3 \<noteq> c div 3 \<Longrightarrow> b ! r ! c = 0"
    by (simp_all add: seedInv_def)
  note wf = consistentD(1)[OF con]
  note r = diag_cell[OF o ij(1)] and c = diag_cell[OF o ij(2)]
  have peers: "b ! r' ! c' \<noteq> num"
    if p: "r' < 9" "c' < 9" and su: "sameUnit ?r ?c r' c'" for r' c'
  proof (cases "r' div 3 = c' div 3")
    case False
    from off[OF p False] num show ?thesis by simp
  next
    case True
    from su True r(2) c(2) have "r' div 3 = orig div 3" "c' div 3 = orig div 3"
      by (auto simp: sameUnit_def)
    from in_diag_box[OF o p(1) this(1)] in_diag_box[OF o p(2) this(2)]
    obtain i' j' where "i' < 3" "r' = orig + i'" "j' < 3" "c' = orig + j'" by blast
    with safe show ?thesis unfolding isSafeInBox_iff by blast
  qed
  have "consistent (setCell b ?r ?c num)"
    by (rule consistent_setCell_peers[OF con r(1) c(1) _ num]) (rule peers)
  moreover have "setCell b ?r ?c num ! r' ! c' = 0"
    if p: "r' < 9" "c' < 9" and d: "r' div 3 \<noteq> c' div 3" for r' c'
  proof -
    from d r(2) c(2) have "\<not> (r' = ?r \<and> c' = ?c)" by auto
    then have "setCell b ?r ?c num ! r' ! c' = b ! r' ! c'"
      by (simp only: nth_setCell[OF wf r(1) c(1) p] if_False)
    with off[OF p d] show ?thesis by simp
  qed
  ultimately show ?thesis by (simp add: seedInv_def)
qed

lemma fillCells_seedInv:
  "fillCells b orig orig cells rs = Some (b', rs') \<Longrightarrow> seedInv b \<Longrightarrow> orig \<in> {0, 3, 6} \<Longrightarrow>
   (\<forall>(i, j) \<in> set cells. i < 3 \<and> j < 3) \<Longrightarrow> seedInv b'"
proof (induction cells arbitrary: b rs)
  case Nil
  then show ?case by simp
next
  case (Cons p cells)
  obtain i j where p: "p = (i, j)" by (cases p)
  with Cons.prems(4) have ij: "i < 3" "j < 3" and rest: "\<forall>(i, j) \<in> set cells. i < 3 \<and> j < 3"
    by simp_all
  from Cons.prems(1) p obtain num rs1 where d: "drawSafe b orig orig rs = Some (num, rs1)"
    and f: "fillCells (setCell b (orig + i) (orig + j) num) orig orig cells rs1 = Some (b', rs')"
    by (auto split: option.splits)
  from drawSafe_Some[OF d] have "isSafeInBox b orig orig num" "1 \<le> num" "num \<le> 9" by simp_all
  from Cons.IH[OF f seedInv_step[OF Cons.prems(2,3) ij this] Cons.prems(3) rest] show ?case .
qed

lemma fillBox_seedInv:
  assumes "fillBox b orig orig rs = Some (b', rs')" "seedInv b" "orig \<in> {0, 3, 6}"
  shows "seedInv b'"
  using assms(1) unfolding fillBox_def
  by (rule fillCells_seedInv[OF _ assms(2,3)]) auto

lemma seedInv_empty: "seedInv createEmptyBoard"
  by (simp add: seedInv_def consistent_empty empty_cells)

lemma solve_consistent:
  assumes "consistent b"
  shows "(completions b = {} \<and> solve b = Some (False, b)) \<or> (\<exists>g \<in> completions b. solve b = Some (True, g))"
proof -
  have "empties b < 82" using empties_le[of b] by simp
  from solveFuel_spec[OF assms this] show ?thesis by (simp add: solve_def)
qed

lemma generateFullBoard_Some:
  assumes "generateFullBoard rs = Some (g, rs')"
  obtains b3 where "seedInv b3" "(completions b3 = {} \<and> g = b3) \<or> g \<in> completions b3"
proof -
  from assms obtain b1 rs1 b2 rs2 b3 ok where
    f1: "fillBox createEmptyBoard 0 0 rs = Some (b1, rs1)" and
    f2: "fillBox b1 3 3 rs1 = Some (b2, rs2)" and
    f3: "fillBox b2 6 6 rs2 = Some (b3, rs')" and
    sv: "solve b3 = Some (ok, g)"
    unfolding generateFullBoard_def by (auto split: option.splits)
  have i1: "seedInv b1" by (rule fillBox_seedInv[OF f1 seedInv_empty]) simp
  have i2: "seedInv b2" by (rule fillBox_seedInv[OF f2 i1]) simp
  have i3: "seedInv b3" by (rule fillBox_seedInv[OF f3 i2]) simp
  then have "consistent b3" by (simp add: seedInv_def)
  from solve_consistent[OF this] sv have "(completions b3 = {} \<and> g = b3) \<or> g \<in> completions b3"
    by auto
  with i3 that show ?thesis by blast
qed

lemma generateFullBoard_wellFormed:
  assumes "generateFullBoard rs = Some (g, rs')"
  shows "wellFormed g"
proof -
  from assms obtain b3 where "seedInv b3" "(completions b3 = {} \<and> g = b3) \<or> g \<in> completions b3"
    by (rule generateFullBoard_Some)
  then show ?thesis
    by (auto simp: seedInv_def completions_def completeValid_def dest: consistentD(1))
qed

lemma generate_Some:
  assumes "generate tag rs = Some (res, rs')"
  obtains full rs1 pz where "generateFullBoard rs = Some (full, rs1)"
    "pokeHoles full tag rs1 = Some (pz, rs')" "res = \<lparr>puzzle = pz, solution = full, difficulty = tag\<rparr>"
  using assms unfolding generate_def by (auto split: option.splits)

lemma pokeHoles_agrees:
  assumes "wellFormed board" "pokeHoles board tag rs = Some (pz, rs')"
  shows "wellFormed pz \<and> agrees board pz"
proof -
  from assms(2) obtain h rest t where "pokeHolesRun board tag rs = Some ((pz, h, rest), t, rs')"
    by (rule pokeHoles_Some)
  then obtain lo hi k rs1 ps where sh: "shuffleArray allCells rs1 = Some (ps, rs')"
    and pl: "pokeLoop board 0 t ps = Some (pz, h, rest)"
    by (rule pokeHolesRun_Some)
  from shuffleArray_positions[OF sh] have sub: "set ps \<subseteq> set allCells" by simp
  have "agrees board board" by (simp add: agrees_iff)
  from pokeLoop_agrees[OF pl assms(1) this sub] show ?thesis .
qed

lemma sample_fill:
  "(case fillBox createEmptyBoard 0 0 sampleDraws of None \<Rightarrow> None | Some (b1, rs1) \<Rightarrow>
    case fillBox b1 3 3 rs1 of None \<Rightarrow> None | Some (b2, rs2) \<Rightarrow> fillBox b2 6 6 rs2)
   = Some (sampleSeed, replicate 81 0)"
  by code_simp

lemma generate_sample_returns:
  "\<exists>res rs'. generate tag sampleDraws = Some (res, rs')"
proof -
  from sample_fill obtain b1 rs1 b2 rs2 where
    f1: "fillBox createEmptyBoard 0 0 sampleDraws = Some (b1, rs1)" and
    f2: "fillBox b1 3 3 rs1 = Some (b2, rs2)" and
    f3: "fillBox b2 6 6 rs2 = Some (sampleSeed, replicate 81 0)"
    by (auto split: option.splits)
  have i1: "seedInv b1" by (rule fillBox_seedInv[OF f1 seedInv_empty]) simp
  have i2: "seedInv b2" by (rule fillBox_seedInv[OF f2 i1]) simp
  have "seedInv sampleSeed" by (rule fillBox_seedInv[OF f3 i2]) simp
  then have "consistent sampleSeed" by (simp add: seedInv_def)
  from solve_consistent[OF this] obtain ok g where "solve sampleSeed = Some (ok, g)" by blast
  with f1 f2 f3 have gf: "generateFullBoard sampleDraws = Some (g, replicate 81 0)"
    by (simp add: generateFullBoard_def)
  from pokeHolesRun_total[OF generateFullBoard_wellFormed[OF gf], of "replicate 81 0" tag]
  obtain pz rs' where "pokeHoles g tag (replicate 81 0) = Some (pz, rs')"
    by (auto dest: pokeHoles_run)
  with gf show ?thesis by (simp add: generate_def)
qed

text \<open>
  C3. For every pair that \<open>generate\<close> returns and every cell \<open>(r, c)\<close> of 0..8 x 0..8, a
  non-zero cell of the puzzle holds the value of the solution at that cell.
\<close>

theorem generate_keeps_clues:
  assumes "generate tag rs = Some (res, rs')"
  shows "\<forall>r<9. \<forall>c<9. puzzle res ! r ! c \<noteq> 0 \<longrightarrow> puzzle res ! r ! c = solution res ! r ! c"
proof -
  from assms obtain full rs1 pz where gf: "generateFullBoard rs = Some (full, rs1)"
    and ph: "pokeHoles full tag rs1 = Some (pz, rs')"
    and res: "res = \<lparr>puzzle = pz, solution = full, difficulty = tag\<rparr>"
    by (rule generate_Some)
  from pokeHoles_agrees[OF generateFullBoard_wellFormed[OF gf] ph] have "agrees full pz" by simp
  then have "\<forall>r<9. \<forall>c<9. pz ! r ! c \<noteq> 0 \<longrightarrow> pz ! r ! c = full ! r ! c"
    unfolding agrees_iff by fastforce
  then show ?thesis by (simp add: res)
qed

theorem generate_keeps_clues_witness:
  "\<exists>res rs'. generate ''hard'' sampleDraws = Some (res, rs')
     \<and> (puzzle res ! 0 ! 0 = 0 \<or> puzzle res ! 0 ! 0 = solution res ! 0 ! 0)"
proof -
  from generate_sample_returns obtain res rs' where g: "generate ''hard'' sampleDraws = Some (res, rs')"
    by blast
  have "(0::nat) < 9" by simp
  with generate_keeps_clues[OF g] have "puzzle res ! 0 ! 0 = 0 \<or> puzzle res ! 0 ! 0 = solution res ! 0 ! 0"
    by blast
  with g show ?thesis by blast
qed

section \<open>The excavator on the store\<close>

lemma rowObj_iff:
  "(ra < length h \<and> (case h ! ra of Row xs \<Rightarrow> length xs = 9 | Grid rs \<Rightarrow> False))
   = (ra < length h \<and> (\<exists>xs. h ! ra = Row xs \<and> length xs = 9))"
  by (cases "h ! ra") simp_all

lemma validGrid_iff:
  "validGrid h a = (\<exists>refs. h ! a = Grid refs \<and> length refs = 9 \<and> distinct refs \<and> a < length h
      \<and> (\<forall>ra \<in> set refs. ra < length h \<and> (\<exists>xs. h ! ra = Row xs \<and> length xs = 9)))"
  unfolding validGrid_def list_all_iff rowObj_iff by (cases "h ! a") auto

lemma validGridE:
  assumes "validGrid h a"
  obtains refs where "h ! a = Grid refs" "length refs = 9" "distinct refs" "a < length h"
    "\<And>ra. ra \<in> set refs \<Longrightarrow> ra < length h \<and> (\<exists>xs. h ! ra = Row xs \<and> length xs = 9)"
  using assms unfolding validGrid_iff by blast

lemma validGridI:
  assumes "h ! a = Grid refs" "length refs = 9" "distinct refs" "a < length h"
    "\<And>ra. ra \<in> set refs \<Longrightarrow> ra < length h \<and> (\<exists>xs. h ! ra = Row xs \<and> length xs = 9)"
  shows "validGrid h a"
  unfolding validGrid_iff using assms by blast

lemma refsAt_Grid: "h ! a = Grid refs \<Longrightarrow> refsAt h a = refs"
  by (simp add: refsAt_def)

lemma rowAt_Row: "h ! ra = Row xs \<Longrightarrow> rowAt h ra = xs"
  by (simp add: rowAt_def)

lemma validGrid_wellFormed:
  assumes "validGrid h a"
  shows "wellFormed (readBoard h a)"
proof -
  from assms obtain refs where g: "h ! a = Grid refs" "length refs = 9" "distinct refs" "a < length h"
    and rows: "\<And>ra. ra \<in> set refs \<Longrightarrow> ra < length h \<and> (\<exists>xs. h ! ra = Row xs \<and> length xs = 9)"
    unfolding validGrid_iff by blast
  have "length (rowAt h ra) = 9" if "ra \<in> set refs" for ra
    using rows[OF that] by (auto simp: rowAt_def)
  with g show ?thesis
    by (simp add: wellFormed_def readBoard_def refsAt_Grid list_all_iff)
qed

text \<open>Objects that stay the same keep the grid the same.\<close>

lemma grid_stable:
  assumes v: "validGrid h a" and len: "length h \<le> length h'"
    and same: "h' ! a = h ! a" "\<And>ra. ra \<in> set (refsAt h a) \<Longrightarrow> h' ! ra = h ! ra"
  shows "validGrid h' a" "refsAt h' a = refsAt h a" "readBoard h' a = readBoard h a"
proof -
  from v obtain refs where g: "h ! a = Grid refs" "length refs = 9" "distinct refs" "a < length h"
    and rows: "\<And>ra. ra \<in> set refs \<Longrightarrow> ra < length h \<and> (\<exists>xs. h ! ra = Row xs \<and> length xs = 9)"
    unfolding validGrid_iff by blast
  from g(1) have r: "refsAt h a = refs" by (rule refsAt_Grid)
  from same(1) g(1) have g': "h' ! a = Grid refs" by simp
  then show r': "refsAt h' a = refsAt h a" by (simp add: r refsAt_Grid)
  show "validGrid h' a"
  proof (rule validGridI[OF g' g(2,3)])
    from g(4) len show "a < length h'" by simp
    fix ra assume "ra \<in> set refs"
    with rows[OF this] same(2)[of ra] r len
    show "ra < length h' \<and> (\<exists>xs. h' ! ra = Row xs \<and> length xs = 9)" by auto
  qed
  have "rowAt h' ra = rowAt h ra" if "ra \<in> set refs" for ra
    using same(2)[of ra] that r by (simp add: rowAt_def)
  then show "readBoard h' a = readBoard h a"
    by (simp add: readBoard_def r r')
qed

lemma allocBoard_props:
  assumes al: "allocBoard h b = (h', a')" and wf: "wellFormed b"
  shows "length h' = length h + 10" "a' = length h + 9" "\<And>x. x < length h \<Longrightarrow> h' ! x = h ! x"
    "ownedGrid (length h) h' a'" "readBoard h' a' = b"
proof -
  from wf have lb: "length b = 9" and rows: "\<And>row. row \<in> set b \<Longrightarrow> length row = 9"
    by (simp_all add: wellFormed_def list_all_iff)
  from al have h': "h' = h @ map Row b @ [Grid [length h..<length h + 9]]" and a': "a' = length h + 9"
    by (auto simp: allocBoard_def lb)
  show "length h' = length h + 10" by (simp add: h' lb)
  show "a' = length h + 9" by (rule a')
  show "h' ! x = h ! x" if "x < length h" for x using that by (simp add: h' nth_append)
  have ga: "h' ! a' = Grid [length h..<length h + 9]"
    by (simp add: h' a' nth_append lb)
  have row: "h' ! (length h + i) = Row (b ! i)" if "i < 9" for i
    using that by (simp add: h' nth_append lb)
  have refrow: "ra < length h' \<and> h' ! ra = Row (b ! (ra - length h)) \<and> length (b ! (ra - length h)) = 9"
    if "ra \<in> set [length h..<length h + 9]" for ra
  proof -
    from that obtain i where i: "i < 9" "ra = length h + i" by (auto intro: that[of "ra - length h"] simp: le_iff_add)
    with row[OF i(1)] rows[of "b ! i"] lb show ?thesis by (simp add: h')
  qed
  have v: "validGrid h' a'"
    by (rule validGridI[OF ga]) (use refrow in \<open>auto simp: h' a' lb\<close>)
  from refsAt_Grid[OF ga] have "list_all (\<lambda>ra. length h \<le> ra) (refsAt h' a')"
    by (simp add: list_all_iff)
  with v show "ownedGrid (length h) h' a'"
    by (simp add: ownedGrid_def a')
  show "readBoard h' a' = b"
  proof (rule nth_equalityI)
    show "length (readBoard h' a') = length b" by (simp add: readBoard_def refsAt_Grid[OF ga] lb)
    fix i assume "i < length (readBoard h' a')"
    then have i: "i < 9" by (simp add: readBoard_def refsAt_Grid[OF ga])
    then show "readBoard h' a' ! i = b ! i"
      by (simp add: readBoard_def refsAt_Grid[OF ga] rowAt_Row[OF row[OF i]])
  qed
qed

lemma writeCellH_props:
  assumes v: "validGrid h a" and r: "r < 9" and c: "c < 9"
  shows "length (writeCellH h a r c w) = length h"
    "\<And>x. x \<noteq> refsAt h a ! r \<Longrightarrow> writeCellH h a r c w ! x = h ! x"
    "validGrid (writeCellH h a r c w) a"
    "refsAt (writeCellH h a r c w) a = refsAt h a"
    "readBoard (writeCellH h a r c w) a = setCell (readBoard h a) r c w"
    "readCellH h a r c = readBoard h a ! r ! c"
proof -
  from v obtain refs where g: "h ! a = Grid refs" "length refs = 9" "distinct refs" "a < length h"
    and rows: "\<And>ra. ra \<in> set refs \<Longrightarrow> ra < length h \<and> (\<exists>xs. h ! ra = Row xs \<and> length xs = 9)"
    unfolding validGrid_iff by blast
  note ra = refsAt_Grid[OF g(1)]
  let ?ra = "refs ! r" and ?h' = "writeCellH h a r c w"
  from r g(2) have mem: "?ra \<in> set refs" by simp
  from rows[OF mem] obtain xs where xs: "?ra < length h" "h ! ?ra = Row xs" "length xs = 9" by blast
  have h': "?h' = h[?ra := Row (xs[c := w])]"
    by (simp add: writeCellH_def ra rowAt_Row[OF xs(2)])
  from xs(2) g(1) have ne: "?ra \<noteq> a" by auto
  show "length ?h' = length h" by (simp add: h')
  show "?h' ! x = h ! x" if "x \<noteq> refsAt h a ! r" for x using that by (simp add: h' ra)
  have ga: "?h' ! a = Grid refs" using ne g(1) by (simp add: h')
  show v': "validGrid ?h' a"
  proof (rule validGridI[OF ga g(2,3)])
    show "a < length ?h'" using g(4) by (simp add: h')
    fix rb assume "rb \<in> set refs"
    from rows[OF this] xs show "rb < length ?h' \<and> (\<exists>ys. ?h' ! rb = Row ys \<and> length ys = 9)"
      by (cases "rb = ?ra") (auto simp: h')
  qed
  show "refsAt ?h' a = refsAt h a" by (simp add: ra refsAt_Grid[OF ga])
  show "readCellH h a r c = readBoard h a ! r ! c"
    using r g(2) by (simp add: readCellH_def readBoard_def ra)
  have ra': "refsAt ?h' a = refs" by (rule refsAt_Grid[OF ga])
  show "readBoard ?h' a = setCell (readBoard h a) r c w"
  proof (rule nth_equalityI)
    show "length (readBoard ?h' a) = length (setCell (readBoard h a) r c w)"
      by (simp add: readBoard_def setCell_def ra ra')
    fix i assume "i < length (readBoard ?h' a)"
    then have i: "i < 9" by (simp add: readBoard_def ra' g(2))
    have lhs: "readBoard ?h' a ! i = rowAt ?h' (refs ! i)"
      using i g(2) by (simp add: readBoard_def ra')
    have old: "readBoard h a ! i = rowAt h (refs ! i)"
      using i g(2) by (simp add: readBoard_def ra)
    have len: "length (readBoard h a) = 9" by (simp add: readBoard_def ra g(2))
    show "readBoard ?h' a ! i = setCell (readBoard h a) r c w ! i"
    proof (cases "i = r")
      case True
      have "rowAt ?h' (refs ! r) = xs[c := w]" using xs(1) by (simp add: h' rowAt_def)
      moreover have "rowAt h (refs ! r) = xs" by (rule rowAt_Row[OF xs(2)])
      ultimately show ?thesis using True r len lhs old by (simp add: setCell_def)
    next
      case False
      with i r g(2,3) have "refs ! i \<noteq> refs ! r" by (simp add: nth_eq_iff_index_eq)
      then have "rowAt ?h' (refs ! i) = rowAt h (refs ! i)" by (simp add: h' rowAt_def)
      with False lhs old show ?thesis by (simp add: setCell_def)
    qed
  qed
qed

lemma storeRows_props:
  "length (storeRows h refs b) = length h"
  "x \<notin> set refs \<Longrightarrow> storeRows h refs b ! x = h ! x"
proof -
  have "length (fold (\<lambda>(ra, xs) h'. h'[ra := Row xs]) ps h) = length h
      \<and> (x \<notin> fst ` set ps \<longrightarrow> fold (\<lambda>(ra, xs) h'. h'[ra := Row xs]) ps h ! x = h ! x)" for ps
    by (induction ps arbitrary: h) (auto simp: nth_list_update)
  from this[of "zip refs b"] show "length (storeRows h refs b) = length h"
    "x \<notin> set refs \<Longrightarrow> storeRows h refs b ! x = h ! x"
    unfolding storeRows_def by (auto dest: set_zip_leftD)
qed

lemma countSolutionsH_props:
  assumes "countSolutionsH h a = Some (h', n)"
  shows "length h' = length h" "\<And>x. x \<notin> set (refsAt h a) \<Longrightarrow> h' ! x = h ! x"
    "\<exists>b'. countSolutions (readBoard h a) = Some (b', n)"
proof -
  from assms obtain b' where cs: "countSolutions (readBoard h a) = Some (b', n)"
    and h': "h' = storeRows h (refsAt h a) b'"
    unfolding countSolutionsH_def by (auto split: option.splits)
  from cs show "\<exists>b'. countSolutions (readBoard h a) = Some (b', n)" by blast
  show "length h' = length h" by (simp add: h' storeRows_props)
  show "h' ! x = h ! x" if "x \<notin> set (refsAt h a)" for x using that by (simp add: h' storeRows_props)
qed

lemma ownedGridD:
  assumes "ownedGrid base h a"
  shows "validGrid h a" "base \<le> a" "\<And>ra. ra \<in> set (refsAt h a) \<Longrightarrow> base \<le> ra"
  using assms by (auto simp: ownedGrid_def list_all_iff)

lemma ownedGrid_refs_bound:
  assumes "validGrid h a" "ra \<in> set (refsAt h a)"
  shows "ra < length h"
  using assms unfolding validGrid_iff by (auto simp: refsAt_def)

lemma validGrid_nth_refs:
  assumes "validGrid h a" "r < 9"
  shows "refsAt h a ! r \<in> set (refsAt h a)" "a \<notin> set (refsAt h a)" "a < length h"
proof -
  from assms(1) obtain refs where g: "h ! a = Grid refs" "length refs = 9" "distinct refs" "a < length h"
    and rows: "\<And>ra. ra \<in> set refs \<Longrightarrow> ra < length h \<and> (\<exists>xs. h ! ra = Row xs \<and> length xs = 9)"
    unfolding validGrid_iff by blast
  note ra = refsAt_Grid[OF g(1)]
  from assms(2) g(2) show "refsAt h a ! r \<in> set (refsAt h a)" by (simp add: ra)
  from rows[of a] g(1) show "a \<notin> set (refsAt h a)" by (auto simp: ra)
  show "a < length h" by (rule g(4))
qed

lemma pokeLoopH_cases:
  assumes "pokeLoopH h pa hp t ((r, c) # ps) = Some res"
  obtains (stop) "t \<le> hp" "res = (h, hp)"
    | (keep) h2 ca h3 where "hp < t" "copyBoardH (writeCellH h pa r c 0) pa = (h2, ca)"
        "countSolutionsH h2 ca = Some (h3, 1)" "pokeLoopH h3 pa (hp + 1) t ps = Some res"
    | (restore) h2 ca h3 n where "hp < t" "copyBoardH (writeCellH h pa r c 0) pa = (h2, ca)"
        "countSolutionsH h2 ca = Some (h3, n)" "n \<noteq> 1"
        "pokeLoopH (writeCellH h3 pa r c (readCellH h pa r c)) pa hp t ps = Some res"
proof (cases "t \<le> hp")
  case True
  with assms stop show ?thesis by simp
next
  case False
  obtain h2 ca where cp: "copyBoardH (writeCellH h pa r c 0) pa = (h2, ca)"
    by (cases "copyBoardH (writeCellH h pa r c 0) pa")
  with assms False obtain h3 n where cs: "countSolutionsH h2 ca = Some (h3, n)"
    by (auto simp: Let_def split: option.splits)
  show ?thesis
  proof (cases "n = 1")
    case True
    with assms False cp cs keep show ?thesis by (simp add: Let_def)
  next
    case ne: False
    with assms False cp cs restore show ?thesis by (simp add: Let_def)
  qed
qed

text \<open>
  One round of the loop on the store, up to the call of the counter: the puzzle's arrays are
  the only old objects that change, and the counter sees a fresh copy.
\<close>

lemma dig_and_count:
  assumes own: "ownedGrid base h pa" and rc: "r < 9" "c < 9"
    and cp: "copyBoardH (writeCellH h pa r c 0) pa = (h2, ca)"
    and cs: "countSolutionsH h2 ca = Some (h3, n)"
  shows "length h \<le> length h3" "\<And>x. x < base \<Longrightarrow> h3 ! x = h ! x" "ownedGrid base h3 pa"
    "readBoard h3 pa = setCell (readBoard h pa) r c 0"
    "\<exists>b'. countSolutions (setCell (readBoard h pa) r c 0) = Some (b', n)"
proof -
  note v = ownedGridD(1)[OF own]
  let ?h1 = "writeCellH h pa r c 0"
  note w = writeCellH_props(1-5)[OF v rc, where w = 0]
  have refr: "base \<le> refsAt h pa ! r"
    by (rule ownedGridD(3)[OF own validGrid_nth_refs(1)[OF v rc(1)]])
  from cp have al: "allocBoard ?h1 (readBoard ?h1 pa) = (h2, ca)" by (simp add: copyBoardH_def)
  note a = allocBoard_props[OF al validGrid_wellFormed[OF w(3)]]
  have refs_old: "ra < length ?h1" if "ra \<in> set (refsAt ?h1 pa)" for ra
    by (rule ownedGrid_refs_bound[OF w(3) that])
  have pa_old: "pa < length ?h1" using validGrid_nth_refs(3)[OF w(3) rc(1)] .
  note cprops = countSolutionsH_props[OF cs]
  have new_refs: "length ?h1 \<le> ra" if "ra \<in> set (refsAt h2 ca)" for ra
    by (rule ownedGridD(3)[OF a(4) that])
  have keep13: "h3 ! x = ?h1 ! x" if "x < length ?h1" for x
  proof -
    from that new_refs[of x] have "x \<notin> set (refsAt h2 ca)" by auto
    from cprops(2)[OF this] a(3)[OF that] show ?thesis by simp
  qed
  have len13: "length ?h1 \<le> length h3" using cprops(1) a(1) by simp
  note st = grid_stable[OF w(3) len13 keep13[OF pa_old] keep13[OF refs_old]]
  show "length h \<le> length h3" using len13 w(1) by simp
  show "h3 ! x = h ! x" if "x < base" for x
  proof -
    from that refr have ne: "x \<noteq> refsAt h pa ! r" by simp
    from that ownedGridD(2)[OF own] pa_old have "x < length ?h1" by simp
    from keep13[OF this] w(2)[OF ne] show ?thesis by simp
  qed
  show "ownedGrid base h3 pa"
    using st(1,2) w(4) own by (simp add: ownedGrid_def)
  show "readBoard h3 pa = setCell (readBoard h pa) r c 0" using st(3) w(5) by simp
  from cprops(3) a(5) w(5) show "\<exists>b'. countSolutions (setCell (readBoard h pa) r c 0) = Some (b', n)"
    by simp
qed

lemma pokeLoopH_spec:
  "pokeLoopH h pa hp t ps = Some (h', hp') \<Longrightarrow> ownedGrid base h pa \<Longrightarrow> set ps \<subseteq> set allCells \<Longrightarrow>
   length h \<le> length h' \<and> (\<forall>x<base. h' ! x = h ! x) \<and> ownedGrid base h' pa
   \<and> (\<exists>rest. pokeLoop (readBoard h pa) hp t ps = Some (readBoard h' pa, hp', rest))"
proof (induction ps arbitrary: h hp)
  case Nil
  then show ?case by simp
next
  case (Cons p ps)
  obtain r c where p: "p = (r, c)" by (cases p)
  with Cons.prems(3) have rc: "r < 9" "c < 9" and sub: "set ps \<subseteq> set allCells"
    by (simp_all add: set_allCells)
  let ?pz = "readBoard h pa"
  from Cons.prems(1)[unfolded p] show ?case
  proof (cases rule: pokeLoopH_cases)
    case stop
    with Cons.prems(2) show ?thesis by (simp add: p)
  next
    case (keep h2 ca h3)
    note d = dig_and_count[OF Cons.prems(2) rc keep(2,3)]
    from Cons.IH[OF keep(4) d(3) sub] d(4)
    obtain rest where ih: "length h3 \<le> length h'" "\<forall>x<base. h' ! x = h3 ! x" "ownedGrid base h' pa"
      "pokeLoop (setCell ?pz r c 0) (hp + 1) t ps = Some (readBoard h' pa, hp', rest)" by auto
    from d(5) obtain b' where "countSolutions (setCell ?pz r c 0) = Some (b', 1)" by blast
    with keep(1) ih(4) have "pokeLoop ?pz hp t ((r, c) # ps) = Some (readBoard h' pa, hp', rest)"
      by (simp add: Let_def)
    with ih(1-3) d(1,2) show ?thesis unfolding p by auto
  next
    case (restore h2 ca h3 n)
    note d = dig_and_count[OF Cons.prems(2) rc restore(2,3)]
    note v3 = ownedGridD(1)[OF d(3)]
    let ?bk = "readCellH h pa r c"
    let ?h4 = "writeCellH h3 pa r c ?bk"
    note w = writeCellH_props(1-5)[OF v3 rc, where w = ?bk]
    have bk: "?bk = ?pz ! r ! c" by (rule writeCellH_props(6)[OF ownedGridD(1)[OF Cons.prems(2)] rc])
    have refr: "base \<le> refsAt h3 pa ! r"
      by (rule ownedGridD(3)[OF d(3) validGrid_nth_refs(1)[OF v3 rc(1)]])
    have own4: "ownedGrid base ?h4 pa"
      using w(3,4) d(3) by (simp add: ownedGrid_def)
    from Cons.IH[OF restore(5) own4 sub] w(5) d(4) bk
    obtain rest where ih: "length ?h4 \<le> length h'" "\<forall>x<base. h' ! x = ?h4 ! x" "ownedGrid base h' pa"
      "pokeLoop (setCell (setCell ?pz r c 0) r c (?pz ! r ! c)) hp t ps = Some (readBoard h' pa, hp', rest)"
      by auto
    from d(5) obtain b' where "countSolutions (setCell ?pz r c 0) = Some (b', n)" by blast
    with restore(1,4) ih(4) have "pokeLoop ?pz hp t ((r, c) # ps) = Some (readBoard h' pa, hp', rest)"
      by (simp add: Let_def)
    moreover have "h' ! x = h ! x" if "x < base" for x
    proof -
      from that refr have "x \<noteq> refsAt h3 pa ! r" by simp
      from w(2)[OF this] ih(2) that d(2)[OF that] show ?thesis by simp
    qed
    ultimately show ?thesis using ih(1,3) d(1) w(1) unfolding p by auto
  qed
qed

lemma pokeLoopH_total:
  "ownedGrid base h pa \<Longrightarrow> set ps \<subseteq> set allCells \<Longrightarrow> \<exists>res. pokeLoopH h pa hp t ps = Some res"
proof (induction ps arbitrary: h hp)
  case Nil
  then show ?case by simp
next
  case (Cons p ps)
  obtain r c where p: "p = (r, c)" by (cases p)
  with Cons.prems(2) have rc: "r < 9" "c < 9" and sub: "set ps \<subseteq> set allCells"
    by (simp_all add: set_allCells)
  note v = ownedGridD(1)[OF Cons.prems(1)]
  let ?h1 = "writeCellH h pa r c 0"
  obtain h2 ca where cp: "copyBoardH ?h1 pa = (h2, ca)" by (cases "copyBoardH ?h1 pa")
  then have al: "allocBoard ?h1 (readBoard ?h1 pa) = (h2, ca)" by (simp add: copyBoardH_def)
  note wf1 = validGrid_wellFormed[OF writeCellH_props(3)[OF v rc, of 0]]
  from allocBoard_props(5)[OF al wf1] wf1 have "wellFormed (readBoard h2 ca)" by simp
  from countSolutions_restores[OF this] obtain n
    where "countSolutions (readBoard h2 ca) = Some (readBoard h2 ca, n)" by blast
  then obtain h3 where cs: "countSolutionsH h2 ca = Some (h3, n)" by (simp add: countSolutionsH_def)
  note d = dig_and_count[OF Cons.prems(1) rc cp cs]
  have own4: "ownedGrid base (writeCellH h3 pa r c w) pa" for w
    using writeCellH_props(3,4)[OF ownedGridD(1)[OF d(3)] rc, of w] d(3) by (simp add: ownedGrid_def)
  from Cons.IH[OF d(3) sub, of "hp + 1"] Cons.IH[OF own4 sub, of "readCellH h pa r c" hp] cp cs
  show ?case unfolding p by (simp add: Let_def)
qed

lemma pokeHolesH_spec:
  assumes v: "validGrid h a" and run: "pokeHolesH h a tag rs = Some (h', pa, rs')"
  shows "\<forall>x<length h. h' ! x = h ! x" "readBoard h' a = readBoard h a"
    "ownedGrid (length h) h' pa" "pokeHoles (readBoard h a) tag rs = Some (readBoard h' pa, rs')"
proof -
  obtain lo hi where cr: "clueRange tag = (lo, hi)" by (cases "clueRange tag")
  obtain h1 pa1 where cp: "copyBoardH h a = (h1, pa1)" by (cases "copyBoardH h a")
  from run cr obtain k rs1 where ri: "randomInt (hi - lo + 1) rs = Some (k, rs1)"
    unfolding pokeHolesH_def by (auto split: option.splits)
  with run cr obtain ps rs2 where sh: "shuffleArray allCells rs1 = Some (ps, rs2)"
    unfolding pokeHolesH_def allCells_def by (auto simp: Let_def split: option.splits)
  with run cr ri cp obtain holes where pl: "pokeLoopH h1 pa1 0 (81 - (k + lo)) ps = Some (h', holes)"
    and eqs: "pa1 = pa" "rs2 = rs'"
    unfolding pokeHolesH_def allCells_def by (auto simp: Let_def split: option.splits)
  from cp have al: "allocBoard h (readBoard h a) = (h1, pa1)" by (simp add: copyBoardH_def)
  note a = allocBoard_props[OF al validGrid_wellFormed[OF v]]
  from shuffleArray_positions[OF sh] have sub: "set ps \<subseteq> set allCells" by simp
  from pokeLoopH_spec[OF pl a(4) sub] obtain rest where
    l: "length h1 \<le> length h'" "\<forall>x<length h. h' ! x = h1 ! x" "ownedGrid (length h) h' pa1"
      "pokeLoop (readBoard h1 pa1) 0 (81 - (k + lo)) ps = Some (readBoard h' pa1, holes, rest)"
    by blast
  show pre: "\<forall>x<length h. h' ! x = h ! x" using l(2) a(3) by simp
  have len: "length h \<le> length h'" using l(1) a(1) by simp
  have "(0::nat) < 9" by simp
  from validGrid_nth_refs(3)[OF v this] pre have sa: "h' ! a = h ! a" by simp
  show "readBoard h' a = readBoard h a"
    by (rule grid_stable(3)[OF v len sa]) (use pre ownedGrid_refs_bound[OF v] in auto)
  show "ownedGrid (length h) h' pa" using l(3) eqs by simp
  from l(4) a(5) cr ri sh eqs
  have "pokeHolesRun (readBoard h a) tag rs = Some ((readBoard h' pa, holes, rest), 81 - (k + lo), rs')"
    unfolding pokeHolesRun_def allCells_def[symmetric] by (simp add: Let_def)
  then show "pokeHoles (readBoard h a) tag rs = Some (readBoard h' pa, rs')" by (rule pokeHoles_run)
qed

lemma pokeHolesH_total:
  assumes v: "validGrid h a" and len: "81 \<le> length rs"
  shows "\<exists>h' pa rs'. pokeHolesH h a tag rs = Some (h', pa, rs')"
proof -
  obtain lo hi where cr: "clueRange tag = (lo, hi)" by (cases "clueRange tag")
  obtain h1 pa1 where cp: "copyBoardH h a = (h1, pa1)" by (cases "copyBoardH h a")
  from len obtain x rs1 where rs: "rs = x # rs1" by (cases rs) auto
  then have ri: "randomInt (hi - lo + 1) rs = Some (x mod (hi - lo + 1), rs1)"
    by (simp add: randomInt_def)
  from rs len have "length allCells - 1 \<le> length rs1" by (simp add: length_allCells)
  from shuffleArray_total[OF this] obtain ps rs2 where sh: "shuffleArray allCells rs1 = Some (ps, rs2)"
    by blast
  from shuffleArray_positions[OF sh] have sub: "set ps \<subseteq> set allCells" by simp
  from cp have al: "allocBoard h (readBoard h a) = (h1, pa1)" by (simp add: copyBoardH_def)
  note a = allocBoard_props[OF al validGrid_wellFormed[OF v]]
  from pokeLoopH_total[OF a(4) sub] obtain res
    where "pokeLoopH h1 pa1 0 (81 - (x mod (hi - lo + 1) + lo)) ps = Some res" by blast
  with cr ri sh cp show ?thesis
    unfolding pokeHolesH_def allCells_def[symmetric] by (cases res) (auto simp: Let_def)
qed

lemma generateFullBoard_sample:
  assumes "generateFullBoard sampleDraws = Some (full, rsm)"
  shows "81 \<le> length rsm"
proof -
  from sample_fill obtain b1 rs1 b2 rs2 where
    f1: "fillBox createEmptyBoard 0 0 sampleDraws = Some (b1, rs1)" and
    f2: "fillBox b1 3 3 rs1 = Some (b2, rs2)" and
    f3: "fillBox b2 6 6 rs2 = Some (sampleSeed, replicate 81 0)"
    by (auto split: option.splits)
  with assms have "rsm = replicate 81 0"
    by (auto simp: generateFullBoard_def split: option.splits)
  then show ?thesis by simp
qed

lemma generateH_spec:
  assumes "generateH h tag rs = Some (h', res, rs')"
  shows "\<exists>full rsm. generateFullBoard rs = Some (full, rsm)
      \<and> readBoard h' (solutionRef res) = full
      \<and> generate tag rs = Some (\<lparr>puzzle = readBoard h' (puzzleRef res), solution = full, difficulty = tag\<rparr>, rs')
      \<and> solutionRef res < puzzleRef res
      \<and> (\<forall>ra \<in> set (refsAt h' (solutionRef res)). \<forall>rb \<in> set (refsAt h' (puzzleRef res)). ra < rb)"
proof -
  from assms obtain full rsm where gf: "generateFullBoard rs = Some (full, rsm)"
    unfolding generateH_def by (auto split: option.splits)
  obtain h1 sa where al: "allocBoard h full = (h1, sa)" by (cases "allocBoard h full")
  with assms gf obtain pa where ph: "pokeHolesH h1 sa tag rsm = Some (h', pa, rs')"
    and res: "res = \<lparr>puzzleRef = pa, solutionRef = sa, difficultyTag = tag\<rparr>"
    unfolding generateH_def by (auto split: option.splits)
  note a = allocBoard_props[OF al generateFullBoard_wellFormed[OF gf]]
  note v = ownedGridD(1)[OF a(4)]
  note p = pokeHolesH_spec[OF v ph]
  have refs_same: "refsAt h' sa = refsAt h1 sa"
    using p(1) validGrid_nth_refs(3)[OF v, of 0] by (simp add: refsAt_def)
  have "ra < rb" if "ra \<in> set (refsAt h' sa)" "rb \<in> set (refsAt h' pa)" for ra rb
    using ownedGrid_refs_bound[OF v, of ra] ownedGridD(3)[OF p(3) that(2)] that(1) refs_same by simp
  moreover have "sa < pa" using ownedGridD(2)[OF p(3)] validGrid_nth_refs(3)[OF v, of 0] by simp
  moreover have "generate tag rs = Some (\<lparr>puzzle = readBoard h' pa, solution = full, difficulty = tag\<rparr>, rs')"
    using gf p(4) a(5) by (simp add: generate_def)
  ultimately show ?thesis using gf p(2) a(5) res by auto
qed

lemma generateH_sample_returns:
  "\<exists>h' res rs'. generateH [] tag sampleDraws = Some (h', res, rs')"
proof -
  from generate_sample_returns[of tag] obtain full rsm where gf: "generateFullBoard sampleDraws = Some (full, rsm)"
    and len: "81 \<le> length rsm"
    unfolding generate_def by (auto split: option.splits dest: generateFullBoard_sample)
  obtain h1 sa where al: "allocBoard [] full = (h1, sa)" by (cases "allocBoard [] full")
  note a = allocBoard_props[OF al generateFullBoard_wellFormed[OF gf]]
  from pokeHolesH_total[OF ownedGridD(1)[OF a(4)] len, of tag] gf al
  show ?thesis by (auto simp: generateH_def)
qed

text \<open>
  C10. On the store, \<open>pokeHoles\<close> leaves every object that existed before the call as it
  was, so the input board is unchanged cell for cell; the puzzle it returns is a new outer
  array of new rows, and its value is the puzzle of the value-level \<open>pokeHoles\<close>. So the
  solution of \<open>generate\<close>'s result is the board that \<open>generateFullBoard\<close> returned, and the
  puzzle shares no array with it.
\<close>

theorem pokeHoles_input_untouched:
  "(validGrid h a \<and> pokeHolesH h a tag rs = Some (h', pa, rs') \<longrightarrow>
      (\<forall>x<length h. h' ! x = h ! x) \<and> readBoard h' a = readBoard h a
      \<and> length h \<le> pa \<and> (\<forall>ra \<in> set (refsAt h' pa). length h \<le> ra)
      \<and> pokeHoles (readBoard h a) tag rs = Some (readBoard h' pa, rs'))
   \<and> (generateH h0 tag0 rs0 = Some (h1, res, rs1) \<longrightarrow>
      (\<exists>full rsm. generateFullBoard rs0 = Some (full, rsm)
         \<and> readBoard h1 (solutionRef res) = full
         \<and> generate tag0 rs0
             = Some (\<lparr>puzzle = readBoard h1 (puzzleRef res), solution = full, difficulty = tag0\<rparr>, rs1)
         \<and> solutionRef res < puzzleRef res
         \<and> (\<forall>ra \<in> set (refsAt h1 (solutionRef res)). \<forall>rb \<in> set (refsAt h1 (puzzleRef res)). ra < rb)))"
proof (intro conjI impI)
  assume "generateH h0 tag0 rs0 = Some (h1, res, rs1)"
  then show "\<exists>full rsm. generateFullBoard rs0 = Some (full, rsm)
         \<and> readBoard h1 (solutionRef res) = full
         \<and> generate tag0 rs0
             = Some (\<lparr>puzzle = readBoard h1 (puzzleRef res), solution = full, difficulty = tag0\<rparr>, rs1)
         \<and> solutionRef res < puzzleRef res
         \<and> (\<forall>ra \<in> set (refsAt h1 (solutionRef res)). \<forall>rb \<in> set (refsAt h1 (puzzleRef res)). ra < rb)"
    by (rule generateH_spec)
next
  assume a: "validGrid h a \<and> pokeHolesH h a tag rs = Some (h', pa, rs')"
  then have v: "validGrid h a" and run: "pokeHolesH h a tag rs = Some (h', pa, rs')" by simp_all
  note p = pokeHolesH_spec[OF v run]
  show "\<forall>x<length h. h' ! x = h ! x" by (rule p(1))
  show "readBoard h' a = readBoard h a" by (rule p(2))
  show "length h \<le> pa" by (rule ownedGridD(2)[OF p(3)])
  show "\<forall>ra \<in> set (refsAt h' pa). length h \<le> ra" using ownedGridD(3)[OF p(3)] by blast
  show "pokeHoles (readBoard h a) tag rs = Some (readBoard h' pa, rs')" by (rule p(4))
qed

theorem pokeHoles_input_untouched_witness:
  "validGrid (fst (allocBoard [] sampleGridA)) 9
   \<and> (\<exists>h' pa rs'. pokeHolesH (fst (allocBoard [] sampleGridA)) 9 ''easy'' (replicate 81 0) = Some (h', pa, rs')
        \<and> readBoard h' 9 = sampleGridA \<and> 10 \<le> pa)
   \<and> (\<exists>h1 res rs1 full rsm. generateH [] ''easy'' sampleDraws = Some (h1, res, rs1)
        \<and> generateFullBoard sampleDraws = Some (full, rsm)
        \<and> readBoard h1 (solutionRef res) = full \<and> solutionRef res < puzzleRef res)"
proof -
  let ?h = "fst (allocBoard [] sampleGridA)"
  have wf: "wellFormed sampleGridA" using sampleGridA_valid by (simp add: completeValid_def)
  have al: "allocBoard [] sampleGridA = (?h, 9)" by (simp add: allocBoard_def sampleGridA_def)
  note a = allocBoard_props[OF al wf]
  note v = ownedGridD(1)[OF a(4)]
  from pokeHolesH_total[OF v, of "replicate 81 0" "''easy''"] obtain h' pa rs'
    where run: "pokeHolesH ?h 9 ''easy'' (replicate 81 0) = Some (h', pa, rs')" by auto
  from pokeHoles_input_untouched[of ?h 9 "''easy''" "replicate 81 0" h' pa rs'] v run a(1,5)
  have "readBoard h' 9 = sampleGridA \<and> 10 \<le> pa" by simp
  with run have p1: "\<exists>h' pa rs'. pokeHolesH ?h 9 ''easy'' (replicate 81 0) = Some (h', pa, rs')
        \<and> readBoard h' 9 = sampleGridA \<and> 10 \<le> pa" by blast
  from generateH_sample_returns[of "''easy''"] obtain h1 res rs1
    where g: "generateH [] ''easy'' sampleDraws = Some (h1, res, rs1)" by blast
  from pokeHoles_input_untouched[of _ _ _ _ _ _ _ "[]" "''easy''" sampleDraws h1 res rs1] g
  obtain full rsm where "generateFullBoard sampleDraws = Some (full, rsm)"
    "readBoard h1 (solutionRef res) = full" "solutionRef res < puzzleRef res" by blast
  with g have p2: "\<exists>h1 res rs1 full rsm. generateH [] ''easy'' sampleDraws = Some (h1, res, rs1)
        \<and> generateFullBoard sampleDraws = Some (full, rsm)
        \<and> readBoard h1 (solutionRef res) = full \<and> solutionRef res < puzzleRef res" by blast
  from v p1 p2 show ?thesis by blast
qed

end
